theory Spec2Isabelle
  imports Main "HOL-Library.Word"
begin

unbundle bit_operations_syntax

section \<open>Machine types, outcomes and error numbers\<close>

text \<open>
  The file \<^verbatim>\<open>xen/drivers/passthrough/x86/iommu.c\<close> is embedded function by function.
  \<^verbatim>\<open>paddr_t\<close>, \<^verbatim>\<open>uint64_t\<close> and \<^verbatim>\<open>unsigned long\<close> are 64-bit words,
  \<^verbatim>\<open>unsigned int\<close> is a 32-bit word and \<^verbatim>\<open>domid_t\<close> a 16-bit word. An \<^verbatim>\<open>int\<close>
  return code is an integer: the code only compares return codes with zero and passes them on.
\<close>

type_synonym paddr_t = "64 word"
type_synonym ulong = "64 word"
type_synonym uint = "32 word"
type_synonym domid_t = "16 word"

text \<open>
  A call either returns, or stops the hypervisor: \<^verbatim>\<open>BUG()\<close> always does, a failed
  \<^verbatim>\<open>ASSERT\<close> does in a debug build only. The build is the parameter \<open>debug\<close> of the
  functions that assert.
\<close>

datatype 'a outcome = Returned 'a | AssertFailed | BugHalt

text \<open>
  Modelled from the spec: the error numbers come from Xen's public \<^verbatim>\<open>errno.h\<close>, which is
  not part of the sources at hand. The spec names them the not-found error, the conflict error,
  memory exhaustion, the aggregate unmap error and the restart signal; the values are Xen's.
\<close>

definition ENOENT :: int where "ENOENT = 2"
definition ENXIO :: int where "ENXIO = 6"
definition ENOMEM :: int where "ENOMEM = 12"
definition ERESTART :: int where "ERESTART = 85"
definition EADDRINUSE :: int where "EADDRINUSE = 98"

text \<open>
  Modelled from the spec: \<^verbatim>\<open>p2m_access_t\<close> is declared in a header that is not part of
  the sources at hand. The spec lists the access classes none, read, read-write and the
  execute-only class that \<^verbatim>\<open>iommu_identity_mapping\<close> reads as the revoke marker.
\<close>

datatype p2m_access_t = p2m_access_n | p2m_access_r | p2m_access_rw | p2m_access_x

text \<open>
  Modelled from the spec: the 4k page macros of \<^verbatim>\<open>asm/page.h\<close> (frames are 4096 bytes,
  and \<^verbatim>\<open>PAGE_ALIGN_4K\<close> rounds an address up to the next frame boundary, in 64-bit
  arithmetic).
\<close>

definition PAGE_SHIFT_4K :: nat where "PAGE_SHIFT_4K = 12"

definition PAGE_ALIGN_4K :: "paddr_t \<Rightarrow> paddr_t" where
  "PAGE_ALIGN_4K addr = (addr + 0xfff) AND NOT 0xfff"

section \<open>Identity map registry\<close>

text \<open>\<^verbatim>\<open>struct identity_map\<close>; the list linkage is the position in the guest's list.\<close>

record identity_map =
  base :: paddr_t
  end_addr :: paddr_t
  access :: p2m_access_t
  count :: uint

text \<open>
  The part of \<^verbatim>\<open>struct domain\<close> the registry touches: the list
  \<^verbatim>\<open>hd->arch.identity_maps\<close> in list order, and the guest's physical-to-machine table,
  whose representation \<open>'p\<close> belongs to the p2m code.
\<close>

record 'p domain =
  identity_maps :: "identity_map list"
  p2m :: 'p

text \<open>
  \<^verbatim>\<open>set_identity_p2m_entry\<close> and \<^verbatim>\<open>clear_identity_p2m_entry\<close> are defined outside
  this file: they are parameters, each returning its \<^verbatim>\<open>int\<close> and the table it leaves.
\<close>

record 'p p2m_ops =
  set_identity_p2m_entry :: "'p \<Rightarrow> ulong \<Rightarrow> p2m_access_t \<Rightarrow> uint \<Rightarrow> int \<times> 'p"
  clear_identity_p2m_entry :: "'p \<Rightarrow> ulong \<Rightarrow> int \<times> 'p"

text \<open>
  The release loop: every frame of \<open>[base_pfn, end_pfn)\<close> is cleared, a failure sets
  \<open>ret\<close> to \<open>-ENXIO\<close> and the loop goes on.
\<close>

function clear_frames :: "'p p2m_ops \<Rightarrow> 'p \<Rightarrow> ulong \<Rightarrow> ulong \<Rightarrow> int \<Rightarrow> int \<times> 'p" where
  "clear_frames ops p base_pfn end_pfn ret =
     (if base_pfn < end_pfn then
        (case clear_identity_p2m_entry ops p base_pfn of
           (err, p') \<Rightarrow>
             clear_frames ops p' (base_pfn + 1) end_pfn (if err \<noteq> 0 then - ENXIO else ret))
      else (ret, p))"
  by pat_completeness auto
termination
proof (relation "measure (\<lambda>(ops, p, b, e, r). unat e - unat b)")
  fix ops :: "'p p2m_ops" and p p' :: 'p and base_pfn end_pfn :: ulong and ret err :: int
  assume "base_pfn < end_pfn"
  then have lt: "unat base_pfn < unat end_pfn" by (simp add: word_less_nat_alt)
  moreover have "unat end_pfn < 2 ^ 64" using unsigned_less [of end_pfn] by simp
  ultimately have "unat (base_pfn + 1) = unat base_pfn + 1" by (simp add: unat_word_ariths)
  with lt show "((ops, p', base_pfn + 1, end_pfn, if err \<noteq> 0 then - ENXIO else ret),
                 (ops, p, base_pfn, end_pfn, ret)) \<in> measure (\<lambda>(ops, p, b, e, r). unat e - unat b)"
    by simp
qed simp

declare clear_frames.simps [simp del]

text \<open>
  The grant loop: the frames of \<open>[base_pfn, end_pfn)\<close> are mapped in order, and the
  first failure is returned at once, with the frames mapped so far left in place.
\<close>

function set_frames ::
  "'p p2m_ops \<Rightarrow> 'p \<Rightarrow> ulong \<Rightarrow> ulong \<Rightarrow> p2m_access_t \<Rightarrow> uint \<Rightarrow> int \<times> 'p" where
  "set_frames ops p base_pfn end_pfn p2ma flag =
     (if base_pfn < end_pfn then
        (case set_identity_p2m_entry ops p base_pfn p2ma flag of
           (err, p') \<Rightarrow>
             if err \<noteq> 0 then (err, p')
             else set_frames ops p' (base_pfn + 1) end_pfn p2ma flag)
      else (0, p))"
  by pat_completeness auto
termination
proof (relation "measure (\<lambda>(ops, p, b, e, a, f). unat e - unat b)")
  fix ops :: "'p p2m_ops" and p p' :: 'p and base_pfn end_pfn :: ulong
    and p2ma :: p2m_access_t and flag :: uint
  assume "base_pfn < end_pfn"
  then have lt: "unat base_pfn < unat end_pfn" by (simp add: word_less_nat_alt)
  moreover have "unat end_pfn < 2 ^ 64" using unsigned_less [of end_pfn] by simp
  ultimately have "unat (base_pfn + 1) = unat base_pfn + 1" by (simp add: unat_word_ariths)
  with lt show "((ops, p', base_pfn + 1, end_pfn, p2ma, flag),
                 (ops, p, base_pfn, end_pfn, p2ma, flag))
                \<in> measure (\<lambda>(ops, p, b, e, a, f). unat e - unat b)"
    by simp
qed simp

declare set_frames.simps [simp del]

text \<open>
  The scan \<^verbatim>\<open>list_for_each_entry\<close> of \<^verbatim>\<open>iommu_identity_mapping\<close>. \<open>seen\<close> holds
  the entries already passed, in order. \<open>None\<close> means the scan reached the end of the list
  without returning; \<open>Some\<close> carries the return code and the guest state of a return from
  inside the loop.
\<close>

fun identity_scan ::
  "'p p2m_ops \<Rightarrow> 'p domain \<Rightarrow> p2m_access_t \<Rightarrow> paddr_t \<Rightarrow> paddr_t \<Rightarrow> ulong \<Rightarrow> ulong \<Rightarrow>
   identity_map list \<Rightarrow> identity_map list \<Rightarrow> (int \<times> 'p domain) option" where
  "identity_scan ops d p2ma b e base_pfn end_pfn seen [] = None"
| "identity_scan ops d p2ma b e base_pfn end_pfn seen (m # rest) =
     (if base m = b \<and> end_addr m = e then
        (if p2ma \<noteq> p2m_access_x then
           (if access m \<noteq> p2ma then Some (- EADDRINUSE, d)
            else Some (0, d\<lparr>identity_maps := seen @ m\<lparr>count := count m + 1\<rparr> # rest\<rparr>))
         else if count m - 1 \<noteq> 0 then
           Some (0, d\<lparr>identity_maps := seen @ m\<lparr>count := count m - 1\<rparr> # rest\<rparr>)
         else
           (case clear_frames ops (p2m d) base_pfn end_pfn 0 of
              (ret, p') \<Rightarrow> Some (ret, d\<lparr>identity_maps := seen @ rest, p2m := p'\<rparr>)))
      else if e \<ge> base m \<and> end_addr m \<ge> b then Some (- EADDRINUSE, d)
      else identity_scan ops d p2ma b e base_pfn end_pfn (seen @ [m]) rest)"

text \<open>
  \<^verbatim>\<open>iommu_identity_mapping\<close>. \<open>alloc_ok\<close> tells whether \<^verbatim>\<open>xmalloc\<close> returns a block.
  \<^verbatim>\<open>ASSERT(pcidevs_locked())\<close> is a locking obligation of the caller and is not modelled.
\<close>

definition iommu_identity_mapping ::
  "bool \<Rightarrow> 'p p2m_ops \<Rightarrow> bool \<Rightarrow> 'p domain \<Rightarrow> p2m_access_t \<Rightarrow> paddr_t \<Rightarrow> paddr_t \<Rightarrow> uint \<Rightarrow>
   (int \<times> 'p domain) outcome" where
  "iommu_identity_mapping debug ops alloc_ok d p2ma b e flag =
     (let base_pfn = drop_bit PAGE_SHIFT_4K b;
          end_pfn = drop_bit PAGE_SHIFT_4K (PAGE_ALIGN_4K e)
      in if debug \<and> \<not> b < e then AssertFailed
         else
           (case identity_scan ops d p2ma b e base_pfn end_pfn [] (identity_maps d) of
              Some r \<Rightarrow> Returned r
            | None \<Rightarrow>
                if p2ma = p2m_access_x then Returned (- ENOENT, d)
                else
                  (case set_frames ops (p2m d) base_pfn end_pfn p2ma flag of
                     (err, p') \<Rightarrow>
                       if err \<noteq> 0 then Returned (err, d\<lparr>p2m := p'\<rparr>)
                       else if \<not> alloc_ok then Returned (- ENOMEM, d\<lparr>p2m := p'\<rparr>)
                       else Returned (0, d\<lparr>identity_maps := identity_maps d @
                              [\<lparr>base = b, end_addr = e, access = p2ma, count = 1\<rparr>],
                              p2m := p'\<rparr>))))"

text \<open>
  \<^verbatim>\<open>iommu_identity_map_teardown\<close>: every entry is unlinked and freed, one after the other;
  the p2m is not touched.
\<close>

fun teardown_entries :: "identity_map list \<Rightarrow> identity_map list" where
  "teardown_entries [] = []"
| "teardown_entries (m # rest) = teardown_entries rest"

definition iommu_identity_map_teardown :: "'p domain \<Rightarrow> 'p domain" where
  "iommu_identity_map_teardown d = d\<lparr>identity_maps := teardown_entries (identity_maps d)\<rparr>"

text \<open>
  The frames the two loops visit, and one turn of each loop, for stating what the loops do:
  \<open>clear_step\<close> is one turn of the release loop on the pair of \<open>ret\<close> and the table,
  \<open>set_step\<close> one turn of the grant loop, which does nothing once an error is recorded.
\<close>

definition frames :: "ulong \<Rightarrow> ulong \<Rightarrow> ulong list" where
  "frames base_pfn end_pfn = map of_nat [unat base_pfn ..< unat end_pfn]"

fun clear_step :: "'p p2m_ops \<Rightarrow> int \<times> 'p \<Rightarrow> ulong \<Rightarrow> int \<times> 'p" where
  "clear_step ops (ret, p) pfn =
     (case clear_identity_p2m_entry ops p pfn of
        (err, p') \<Rightarrow> (if err \<noteq> 0 then - ENXIO else ret, p'))"

fun set_step :: "'p p2m_ops \<Rightarrow> p2m_access_t \<Rightarrow> uint \<Rightarrow> int \<times> 'p \<Rightarrow> ulong \<Rightarrow> int \<times> 'p" where
  "set_step ops p2ma flag (err, p) pfn =
     (if err \<noteq> 0 then (err, p) else set_identity_p2m_entry ops p pfn p2ma flag)"

text \<open>
  The two tests of the scan, as predicates: an entry is an exact match of \<open>[b, e)\<close>, and an
  entry is in conflict with it (\<^verbatim>\<open>end >= map->base && map->end >= base\<close>: both
  comparisons are inclusive). \<open>overlaps\<close> is the overlap of the half-open ranges
  \<open>[base, end)\<close>, for comparison.
\<close>

definition exact :: "identity_map \<Rightarrow> paddr_t \<Rightarrow> paddr_t \<Rightarrow> bool" where
  "exact m b e = (base m = b \<and> end_addr m = e)"

definition touches :: "identity_map \<Rightarrow> paddr_t \<Rightarrow> paddr_t \<Rightarrow> bool" where
  "touches m b e = (e \<ge> base m \<and> end_addr m \<ge> b)"

definition overlaps :: "identity_map \<Rightarrow> paddr_t \<Rightarrow> paddr_t \<Rightarrow> bool" where
  "overlaps m b e = (b < end_addr m \<and> base m < e)"

text \<open>
  The state of a registry that grants and releases have built: every entry has
  \<open>base < end\<close> (the function's assertion), and no entry is in conflict with another one.
\<close>

fun identity_maps_ok :: "identity_map list \<Rightarrow> bool" where
  "identity_maps_ok [] = True"
| "identity_maps_ok (m # ms) =
     (base m < end_addr m \<and> list_all (\<lambda>m'. \<not> touches m' (base m) (end_addr m)) ms
      \<and> identity_maps_ok ms)"

text \<open>
  A p2m for worked examples: the table is the list of the frames that are mapped; mapping
  a frame always succeeds, and unmapping a frame fails with \<open>-1\<close> when the frame is not
  mapped.
\<close>

definition example_p2m_ops :: "(ulong list) p2m_ops" where
  "example_p2m_ops =
     \<lparr>set_identity_p2m_entry = (\<lambda>p pfn a f. (0, p @ [pfn])),
      clear_identity_p2m_entry = (\<lambda>p pfn. (if pfn \<in> set p then 0 else - 1, removeAll pfn p))\<rparr>"

section \<open>Domain-ID allocator\<close>

text \<open>
  Modelled from the spec: the identifier constants of Xen's public \<^verbatim>\<open>xen.h\<close>, which is
  not part of the sources at hand. Identifiers up to \<open>DOMID_MASK\<close> belong to primary
  guests (the reserved boundary), \<open>DOMID_INVALID\<close> is the invalid-id value, and
  \<open>UINT16_MAX - DOMID_MASK\<close> is the number of bits of the bitmap.
\<close>

definition UINT16_MAX :: nat where "UINT16_MAX = 65535"
definition DOMID_MASK :: nat where "DOMID_MASK = 0x7FFF"
definition DOMID_INVALID :: domid_t where "DOMID_INVALID = 0x7FF4"

text \<open>
  Modelled from the spec: the bit operations of \<^verbatim>\<open>asm/bitops.h\<close>, which is not part of
  the sources at hand. The bitmap is the set of the indices whose bit is set.
  \<open>find_next_zero_bit\<close> returns the first clear index from \<open>offset\<close> on that is below
  \<open>sz\<close>, and \<open>sz\<close> when there is none.
\<close>

function find_next_zero_bit :: "nat set \<Rightarrow> nat \<Rightarrow> nat \<Rightarrow> nat" where
  "find_next_zero_bit m sz offset =
     (if offset < sz then
        (if offset \<in> m then find_next_zero_bit m sz (offset + 1) else offset)
      else sz)"
  by pat_completeness auto
termination
  by (relation "measure (\<lambda>(m, sz, offset). sz - offset)") simp_all

declare find_next_zero_bit.simps [simp del]

definition find_first_zero_bit :: "nat set \<Rightarrow> nat \<Rightarrow> nat" where
  "find_first_zero_bit m sz = find_next_zero_bit m sz 0"

definition set_bit_nr :: "nat \<Rightarrow> nat set \<Rightarrow> nat set" where
  "set_bit_nr nr m = insert nr m"

definition test_and_clear_bit :: "nat \<Rightarrow> nat set \<Rightarrow> bool \<times> nat set" where
  "test_and_clear_bit nr m = (nr \<in> m, m - {nr})"

text \<open>
  \<^verbatim>\<open>iommu_init_domid\<close> returns \<^verbatim>\<open>ZERO_BLOCK_PTR\<close> when quarantining is off,
  \<^verbatim>\<open>NULL\<close> when \<^verbatim>\<open>xzalloc_array\<close> fails (\<open>alloc_ok\<close> tells), and otherwise a
  bitmap that is all clear but for the bit of \<open>reserve\<close>.
\<close>

datatype bitmap_ptr = ZERO_BLOCK_PTR | NULL_PTR | Bitmap "nat set"

definition iommu_init_domid :: "bool \<Rightarrow> bool \<Rightarrow> bool \<Rightarrow> domid_t \<Rightarrow> bitmap_ptr outcome" where
  "iommu_init_domid debug iommu_quarantine alloc_ok reserve =
     (if \<not> iommu_quarantine then Returned ZERO_BLOCK_PTR
      else if alloc_ok \<and> reserve \<noteq> DOMID_INVALID then
        (if debug \<and> \<not> unat reserve > DOMID_MASK then AssertFailed
         else Returned (Bitmap (set_bit_nr (unat (reserve AND of_nat DOMID_MASK)) {})))
      else Returned (if alloc_ok then Bitmap {} else NULL_PTR))"

text \<open>
  \<^verbatim>\<open>iommu_alloc_domid\<close>, on the bitmap and the function's static cursor \<open>start\<close>;
  it returns the identifier, the bitmap and the cursor. The index never exceeds the size of
  the bitmap, so the \<^verbatim>\<open>unsigned int\<close> arithmetic on it does not wrap; the result is cut
  to the 16 bits of \<^verbatim>\<open>domid_t\<close>.
\<close>

definition iommu_alloc_domid :: "nat set \<Rightarrow> nat \<Rightarrow> domid_t \<times> nat set \<times> nat" where
  "iommu_alloc_domid m start =
     (let idx = find_next_zero_bit m (UINT16_MAX - DOMID_MASK) start;
          idx = (if idx \<ge> UINT16_MAX - DOMID_MASK
                 then find_first_zero_bit m (UINT16_MAX - DOMID_MASK) else idx)
      in if idx \<ge> UINT16_MAX - DOMID_MASK then (DOMID_INVALID, m, start)
         else (of_nat idx OR of_nat (DOMID_MASK + 1), set_bit_nr idx m, idx + 1))"

text \<open>\<^verbatim>\<open>iommu_free_domid\<close>: the bitmap it leaves, or the halt.\<close>

definition iommu_free_domid :: "bool \<Rightarrow> domid_t \<Rightarrow> nat set \<Rightarrow> nat set outcome" where
  "iommu_free_domid debug domid m =
     (if domid = DOMID_INVALID then Returned m
      else if debug \<and> \<not> unat domid > DOMID_MASK then AssertFailed
      else
        (case test_and_clear_bit (unat (domid AND of_nat DOMID_MASK)) m of
           (was_set, m') \<Rightarrow> if \<not> was_set then BugHalt else Returned m'))"

text \<open>
  The identifiers that are checked out of a bitmap: the biased indices of its set bits.
\<close>

definition outstanding :: "nat set \<Rightarrow> domid_t set" where
  "outstanding m =
     (\<lambda>idx. of_nat idx OR of_nat (DOMID_MASK + 1)) ` {idx \<in> m. idx < UINT16_MAX - DOMID_MASK}"


section \<open>Page table arena\<close>

text \<open>
  A page is named by its frame number. The state of the arena of one guest: the list
  \<^verbatim>\<open>hd->arch.pgtables.list\<close>, head first; the root page table, which belongs to the vendor
  code; the contents of the pages of the domain heap, each an array of
  \<^verbatim>\<open>PAGE_SIZE / sizeof(uint64_t)\<close> slots; and the pages given back to the heap with
  \<^verbatim>\<open>free_domheap_page\<close>, in the order of the calls.
\<close>

type_synonym page_info = nat

record 'r arena =
  pgtables_list :: "page_info list"
  root_pgtable :: 'r
  page_data :: "page_info \<Rightarrow> 64 word list"
  heap_freed :: "page_info list"

text \<open>
  Modelled from the spec: the constants of \<^verbatim>\<open>asm/page.h\<close> and
  \<^verbatim>\<open>asm/pt-contig-markers.h\<close> and the bit scan of \<^verbatim>\<open>asm/bitops.h\<close>, which are not
  part of the sources at hand. \<open>PT_SLOTS\<close> is \<^verbatim>\<open>PAGE_SIZE / sizeof(*p)\<close>;
  \<open>CONTIG_LEVEL_SHIFT\<close> is the base run-length exponent; \<open>find_first_set_bit\<close> is the
  index of the lowest set bit of its argument (the lowest-set-bit rule), which the C leaves
  undefined for 0 and which is 0 there in the model.
\<close>

definition PT_SLOTS :: nat where "PT_SLOTS = 4096 div 8"
definition CONTIG_LEVEL_SHIFT :: nat where "CONTIG_LEVEL_SHIFT = 9"

function find_first_set_bit :: "nat \<Rightarrow> nat" where
  "find_first_set_bit x =
     (if x = 0 then 0 else if odd x then 0 else 1 + find_first_set_bit (x div 2))"
  by pat_completeness auto
termination
  by (relation "measure id") simp_all

declare find_first_set_bit.simps [simp del]

text \<open>
  The marker loop of \<^verbatim>\<open>iommu_alloc_pgtable\<close>, \<open>for ( i = 4; i < PAGE_SIZE / sizeof(*p);
  i += 4 )\<close>: four stores per turn.
\<close>

function fill_markers :: "nat \<Rightarrow> nat \<Rightarrow> 64 word list \<Rightarrow> 64 word list" where
  "fill_markers shift i p =
     (if i < PT_SLOTS then
        fill_markers shift (i + 4)
          (p[i + 0 := push_bit shift (of_nat (find_first_set_bit i)),
             i + 1 := 0,
             i + 2 := push_bit shift 1,
             i + 3 := 0])
      else p)"
  by pat_completeness auto
termination
  by (relation "measure (\<lambda>(shift, i, p). PT_SLOTS - i)") simp_all

declare fill_markers.simps [simp del]

text \<open>
  \<^verbatim>\<open>iommu_alloc_pgtable\<close>. \<open>new_pg\<close> is what \<^verbatim>\<open>alloc_domheap_page\<close> returns
  (the NUMA hint only bears on which page that is). The result is the page returned, if any,
  and the arena \<open>hdom\<close>
  (the \<^verbatim>\<open>hd\<close> of the source).
\<close>

definition iommu_alloc_pgtable ::
  "bool \<Rightarrow> 64 word \<Rightarrow> page_info option \<Rightarrow> 'r arena \<Rightarrow> (page_info option \<times> 'r arena) outcome" where
  "iommu_alloc_pgtable debug contig_mask new_pg hdom =
     (case new_pg of
        None \<Rightarrow> Returned (None, hdom)
      | Some pg \<Rightarrow>
          (let p = page_data hdom pg in
           if contig_mask \<noteq> 0 then
             (let shift = find_first_set_bit (unat contig_mask) in
              if debug \<and> of_nat CONTIG_LEVEL_SHIFT AND drop_bit shift contig_mask
                           \<noteq> of_nat CONTIG_LEVEL_SHIFT
              then AssertFailed
              else
                (let p = p[0 := push_bit shift (of_nat CONTIG_LEVEL_SHIFT),
                           1 := 0,
                           2 := push_bit shift 1,
                           3 := 0];
                     p = fill_markers shift 4 p
                 in Returned (Some pg, hdom\<lparr>pgtables_list := pg # pgtables_list hdom,
                                           page_data := (page_data hdom)(pg := p)\<rparr>)))
           else
             Returned (Some pg, hdom\<lparr>pgtables_list := pg # pgtables_list hdom,
                                    page_data := (page_data hdom)(pg := replicate PT_SLOTS 0)\<rparr>)))"

text \<open>
  The drain loop of \<^verbatim>\<open>iommu_free_pgtables\<close>. \<^verbatim>\<open>general_preempt_check\<close> depends on
  the load of the machine: it is the parameter \<open>chk\<close>, asked with the number \<open>n\<close> of pages
  this call has freed so far. \<open>done\<close> is the \<^verbatim>\<open>unsigned int\<close> counter of the source.
  The result is the return code, the list left and the pages given back to the heap.
\<close>

fun free_pgtables_loop ::
  "(nat \<Rightarrow> bool) \<Rightarrow> uint \<Rightarrow> nat \<Rightarrow> page_info list \<Rightarrow> page_info list \<Rightarrow>
   int \<times> page_info list \<times> page_info list" where
  "free_pgtables_loop chk done n [] freed = (0, [], freed)"
| "free_pgtables_loop chk done n (pg # rest) freed =
     (if (done + 1) AND 0xff = 0 \<and> chk (Suc n) then (- ERESTART, rest, freed @ [pg])
      else free_pgtables_loop chk (done + 1) (Suc n) rest (freed @ [pg]))"

text \<open>
  \<^verbatim>\<open>iommu_free_pgtables\<close>. \<^verbatim>\<open>clear_root_pgtable\<close> is the vendor's hook. The barrier
  on the mapping lock is a concurrency matter and is not modelled.
\<close>

definition iommu_free_pgtables ::
  "bool \<Rightarrow> ('r \<Rightarrow> 'r) \<Rightarrow> (nat \<Rightarrow> bool) \<Rightarrow> 'r arena \<Rightarrow> int \<times> 'r arena" where
  "iommu_free_pgtables is_iommu_enabled clear_root_pgtable chk hdom =
     (if \<not> is_iommu_enabled then (0, hdom)
      else
        (case free_pgtables_loop chk 0 0 (pgtables_list hdom) (heap_freed hdom) of
           (rc, rest, freed) \<Rightarrow>
             (rc, hdom\<lparr>pgtables_list := rest,
                     root_pgtable := clear_root_pgtable (root_pgtable hdom),
                     heap_freed := freed\<rparr>)))"

text \<open>
  The marked page in closed form: the slot 0 holds \<open>CONTIG_LEVEL_SHIFT\<close> and every other slot
  the index of the lowest set bit of its own index, each shifted to the marker field.
  \<open>contig_assert\<close> is the condition the function asserts on the mask.
\<close>

definition marker_page :: "nat \<Rightarrow> 64 word list" where
  "marker_page shift =
     map (\<lambda>k. push_bit shift (of_nat (if k = 0 then CONTIG_LEVEL_SHIFT else find_first_set_bit k)))
       [0 ..< PT_SLOTS]"

definition contig_assert :: "64 word \<Rightarrow> bool" where
  "contig_assert contig_mask =
     (of_nat CONTIG_LEVEL_SHIFT AND drop_bit (find_first_set_bit (unat contig_mask)) contig_mask
        = (of_nat CONTIG_LEVEL_SHIFT :: 64 word))"

section \<open>Hardware-domain map builder\<close>



















section \<open>Properties of the identity map registry\<close>

lemma unat_succ_less: "(b :: 'a::len word) < e \<Longrightarrow> unat (b + 1) = Suc (unat b)"
proof -
  assume "b < e"
  then have "unat b < unat e" by (simp add: word_less_nat_alt)
  moreover have "unat e < 2 ^ LENGTH('a)" by simp
  ultimately have "unat b + 1 < 2 ^ LENGTH('a)" by linarith
  then show ?thesis by (simp add: unat_word_ariths)
qed

lemma scan_None_iff:
  "identity_scan ops d p2ma b e bp ep seen rest = None
   \<longleftrightarrow> list_all (\<lambda>m. \<not> exact m b e \<and> \<not> touches m b e) rest"
  by (induction rest arbitrary: seen) (auto simp: exact_def touches_def split: prod.splits)

lemma scan_skip:
  "list_all (\<lambda>m. \<not> exact m b e \<and> \<not> touches m b e) pre \<Longrightarrow>
   identity_scan ops d p2ma b e bp ep seen (pre @ rest)
   = identity_scan ops d p2ma b e bp ep (seen @ pre) rest"
  by (induction pre arbitrary: seen) (auto simp: exact_def touches_def)

lemma scan_conflict:
  "list_all (\<lambda>m. \<not> exact m b e) rest \<Longrightarrow> list_ex (\<lambda>m. touches m b e) rest \<Longrightarrow>
   identity_scan ops d p2ma b e bp ep seen rest = Some (- EADDRINUSE, d)"
  by (induction rest arbitrary: seen) (auto simp: exact_def touches_def)

lemma exact_touches: "b < e \<Longrightarrow> exact m b e \<Longrightarrow> touches m b e"
  by (auto simp: exact_def touches_def)

lemma overlaps_touches: "overlaps m b e \<Longrightarrow> touches m b e"
  by (auto simp: overlaps_def touches_def)

lemma ok_append:
  "identity_maps_ok (xs @ ys) \<longleftrightarrow>
     identity_maps_ok xs \<and> identity_maps_ok ys
     \<and> list_all (\<lambda>x. list_all (\<lambda>y. \<not> touches y (base x) (end_addr x)) ys) xs"
  by (induction xs) (auto simp: list_all_iff)

lemma touches_sym: "touches m (base m') (end_addr m') \<longleftrightarrow> touches m' (base m) (end_addr m)"
  by (auto simp: touches_def)

lemma ok_prefix_clear:
  assumes "identity_maps_ok (pre @ m # post)" "exact m b e"
  shows "list_all (\<lambda>m'. \<not> exact m' b e \<and> \<not> touches m' b e) pre"
  using assms
  by (auto simp: ok_append list_all_iff exact_def touches_def)

lemma errno_nonzero [simp]:
  "EADDRINUSE \<noteq> 0" "ENOENT \<noteq> 0" "ENOMEM \<noteq> 0" "ENXIO \<noteq> 0" "ERESTART \<noteq> 0"
  "EADDRINUSE \<noteq> ENOENT"
  by (simp_all add: EADDRINUSE_def ENOENT_def ENOMEM_def ENXIO_def ERESTART_def)

lemma scan_at_exact:
  assumes ok: "identity_maps_ok (pre @ m # post)" and ex: "exact m b e"
  shows "identity_scan ops d p2ma b e bp ep [] (pre @ m # post) =
     (if p2ma \<noteq> p2m_access_x then
        (if access m \<noteq> p2ma then Some (- EADDRINUSE, d)
         else Some (0, d\<lparr>identity_maps := pre @ m\<lparr>count := count m + 1\<rparr> # post\<rparr>))
      else if count m - 1 \<noteq> 0 then
        Some (0, d\<lparr>identity_maps := pre @ m\<lparr>count := count m - 1\<rparr> # post\<rparr>)
      else
        (case clear_frames ops (p2m d) bp ep 0 of
           (ret, p') \<Rightarrow> Some (ret, d\<lparr>identity_maps := pre @ post, p2m := p'\<rparr>)))"
proof -
  have "identity_scan ops d p2ma b e bp ep [] (pre @ m # post)
        = identity_scan ops d p2ma b e bp ep ([] @ pre) (m # post)"
    by (rule scan_skip) (rule ok_prefix_clear [OF ok ex])
  with ex show ?thesis by (simp add: exact_def)
qed

lemma ok_exact_less: "identity_maps_ok ms \<Longrightarrow> m \<in> set ms \<Longrightarrow> exact m b e \<Longrightarrow> b < e"
  by (induction ms) (auto simp: exact_def)

lemma grant_at_exact:
  assumes ok: "identity_maps_ok (identity_maps d)" and nx: "p2ma \<noteq> p2m_access_x"
    and k: "k < length (identity_maps d)" and ex: "exact (identity_maps d ! k) b e"
  shows "iommu_identity_mapping debug ops alloc_ok d p2ma b e flag =
     (if access (identity_maps d ! k) = p2ma then
        Returned (0, d\<lparr>identity_maps := (identity_maps d)
                      [k := (identity_maps d ! k)\<lparr>count := count (identity_maps d ! k) + 1\<rparr>]\<rparr>)
      else Returned (- EADDRINUSE, d))"
proof -
  let ?ms = "identity_maps d"
  have split: "?ms = take k ?ms @ ?ms ! k # drop (Suc k) ?ms"
    using k by (simp add: id_take_nth_drop)
  have lt: "b < e"
    using ok k ex by (meson ok_exact_less nth_mem)
  have ok': "identity_maps_ok (take k ?ms @ ?ms ! k # drop (Suc k) ?ms)"
    using ok split by simp
  have "identity_scan ops d p2ma b e bp ep [] ?ms =
     (if access (?ms ! k) \<noteq> p2ma then Some (- EADDRINUSE, d)
      else Some (0, d\<lparr>identity_maps := take k ?ms @ (?ms ! k)\<lparr>count := count (?ms ! k) + 1\<rparr>
                                          # drop (Suc k) ?ms\<rparr>))" for bp ep
    using scan_at_exact [OF ok' ex, of ops d p2ma bp ep] nx split by simp
  then show ?thesis
    using lt k by (simp add: iommu_identity_mapping_def Let_def upd_conv_take_nth_drop)
qed

lemma grant_unmatched:
  assumes nx: "p2ma \<noteq> p2m_access_x" and lt: "b < e"
    and none: "list_all (\<lambda>m. \<not> touches m b e) (identity_maps d)"
  shows "iommu_identity_mapping debug ops alloc_ok d p2ma b e flag =
     (case set_frames ops (p2m d) (drop_bit PAGE_SHIFT_4K b)
             (drop_bit PAGE_SHIFT_4K (PAGE_ALIGN_4K e)) p2ma flag of
        (err, p') \<Rightarrow>
          if err \<noteq> 0 then Returned (err, d\<lparr>p2m := p'\<rparr>)
          else if \<not> alloc_ok then Returned (- ENOMEM, d\<lparr>p2m := p'\<rparr>)
          else Returned (0, d\<lparr>identity_maps := identity_maps d @
                 [\<lparr>base = b, end_addr = e, access = p2ma, count = 1\<rparr>], p2m := p'\<rparr>))"
proof -
  have "list_all (\<lambda>m. \<not> exact m b e \<and> \<not> touches m b e) (identity_maps d)"
    using none lt by (auto simp: list_all_iff dest: exact_touches)
  then have "identity_scan ops d p2ma b e bp ep [] (identity_maps d) = None" for bp ep
    by (simp add: scan_None_iff)
  then show ?thesis
    using nx lt by (simp add: iommu_identity_mapping_def Let_def)
qed

lemma call_conflict:
  assumes lt: "b < e" and nex: "list_all (\<lambda>m. \<not> exact m b e) (identity_maps d)"
    and t: "list_ex (\<lambda>m. touches m b e) (identity_maps d)"
  shows "iommu_identity_mapping debug ops alloc_ok d p2ma b e flag = Returned (- EADDRINUSE, d)"
proof -
  have "identity_scan ops d p2ma b e bp ep [] (identity_maps d) = Some (- EADDRINUSE, d)"
    for bp ep
    by (rule scan_conflict [OF nex t])
  then show ?thesis
    using lt by (simp add: iommu_identity_mapping_def Let_def)
qed

lemma release_unmatched:
  assumes lt: "b < e" and none: "list_all (\<lambda>m. \<not> touches m b e) (identity_maps d)"
  shows "iommu_identity_mapping debug ops alloc_ok d p2m_access_x b e flag = Returned (- ENOENT, d)"
proof -
  have "list_all (\<lambda>m. \<not> exact m b e \<and> \<not> touches m b e) (identity_maps d)"
    using none lt by (auto simp: list_all_iff dest: exact_touches)
  then have "identity_scan ops d p2ma b e bp ep [] (identity_maps d) = None" for bp ep p2ma
    by (simp add: scan_None_iff)
  then show ?thesis
    using lt by (simp add: iommu_identity_mapping_def Let_def)
qed

lemma release_at_exact:
  assumes ok: "identity_maps_ok (identity_maps d)"
    and k: "k < length (identity_maps d)" and ex: "exact (identity_maps d ! k) b e"
  shows "iommu_identity_mapping debug ops alloc_ok d p2m_access_x b e flag =
     (if count (identity_maps d ! k) - 1 \<noteq> 0 then
        Returned (0, d\<lparr>identity_maps := (identity_maps d)
                      [k := (identity_maps d ! k)\<lparr>count := count (identity_maps d ! k) - 1\<rparr>]\<rparr>)
      else
        (case clear_frames ops (p2m d) (drop_bit PAGE_SHIFT_4K b)
                (drop_bit PAGE_SHIFT_4K (PAGE_ALIGN_4K e)) 0 of
           (ret, p') \<Rightarrow>
             Returned (ret, d\<lparr>identity_maps := take k (identity_maps d) @ drop (Suc k) (identity_maps d),
                              p2m := p'\<rparr>)))"
proof -
  let ?ms = "identity_maps d"
  have split: "?ms = take k ?ms @ ?ms ! k # drop (Suc k) ?ms"
    using k by (simp add: id_take_nth_drop)
  have lt: "b < e"
    using ok k ex by (meson ok_exact_less nth_mem)
  have ok': "identity_maps_ok (take k ?ms @ ?ms ! k # drop (Suc k) ?ms)"
    using ok split by simp
  have "identity_scan ops d p2m_access_x b e bp ep [] ?ms =
      (if count (?ms ! k) - 1 \<noteq> 0 then
        Some (0, d\<lparr>identity_maps := take k ?ms @ (?ms ! k)\<lparr>count := count (?ms ! k) - 1\<rparr> # drop (Suc k) ?ms\<rparr>)
      else
        (case clear_frames ops (p2m d) bp ep 0 of
           (ret, p') \<Rightarrow> Some (ret, d\<lparr>identity_maps := take k ?ms @ drop (Suc k) ?ms, p2m := p'\<rparr>)))" for bp ep
    using scan_at_exact [OF ok' ex, of ops d p2m_access_x bp ep] split by simp
  then show ?thesis
    using lt k by (simp add: iommu_identity_mapping_def Let_def upd_conv_take_nth_drop split: prod.splits)
qed

lemma frames_Cons: "b < e \<Longrightarrow> frames b e = b # frames (b + 1) e"
  by (simp add: frames_def upt_conv_Cons word_less_nat_alt unat_succ_less)

lemma frames_Nil: "\<not> b < e \<Longrightarrow> frames b e = []"
  by (simp add: frames_def word_less_nat_alt)

lemma clear_frames_foldl:
  "clear_frames ops p b e ret = foldl (clear_step ops) (ret, p) (frames b e)"
proof (induction ops p b e ret rule: clear_frames.induct)
  case (1 ops p base_pfn end_pfn ret)
  show ?case
  proof (cases "base_pfn < end_pfn")
    case True
    obtain err p' where c: "clear_identity_p2m_entry ops p base_pfn = (err, p')"
      by (cases "clear_identity_p2m_entry ops p base_pfn")
    show ?thesis
      using True c "1.IH" [OF True c [symmetric]]
      by (subst clear_frames.simps) (simp add: frames_Cons)
  next
    case False
    then show ?thesis
      by (subst clear_frames.simps) (simp add: frames_Nil)
  qed
qed

lemma foldl_set_step_stuck:
  "err \<noteq> 0 \<Longrightarrow> foldl (set_step ops p2ma flag) (err, p) fs = (err, p)"
  by (induction fs) simp_all

lemma set_frames_foldl:
  "set_frames ops p b e p2ma flag = foldl (set_step ops p2ma flag) (0, p) (frames b e)"
proof (induction ops p b e p2ma flag rule: set_frames.induct)
  case (1 ops p base_pfn end_pfn p2ma flag)
  show ?case
  proof (cases "base_pfn < end_pfn")
    case True
    obtain err p' where c: "set_identity_p2m_entry ops p base_pfn p2ma flag = (err, p')"
      by (cases "set_identity_p2m_entry ops p base_pfn p2ma flag")
    show ?thesis
    proof (cases "err = 0")
      case True
      with \<open>base_pfn < end_pfn\<close> c "1.IH" [OF \<open>base_pfn < end_pfn\<close> c [symmetric]] show ?thesis
        by (subst set_frames.simps) (simp add: frames_Cons)
    next
      case False
      with \<open>base_pfn < end_pfn\<close> c show ?thesis
        by (subst set_frames.simps) (simp add: frames_Cons foldl_set_step_stuck)
    qed
  next
    case False
    then show ?thesis
      by (subst set_frames.simps) (simp add: frames_Nil)
  qed
qed

lemma clear_ret: "fst (foldl (clear_step ops) (r, p) fs) \<in> {r, - ENXIO}"
  by (induction fs arbitrary: r p) (auto split: prod.splits)

lemma ok_same_ranges:
  "length ms = length ms' \<Longrightarrow>
   (\<forall>i < length ms. base (ms ! i) = base (ms' ! i) \<and> end_addr (ms ! i) = end_addr (ms' ! i)) \<Longrightarrow>
   identity_maps_ok ms = identity_maps_ok ms'"
proof (induction ms ms' rule: list_induct2)
  case Nil
  then show ?case by simp
next
  case (Cons x xs y ys)
  have hd: "base x = base y" "end_addr x = end_addr y"
    using Cons.prems by auto
  have tl: "\<forall>i < length xs. base (xs ! i) = base (ys ! i) \<and> end_addr (xs ! i) = end_addr (ys ! i)"
    using Cons.prems by auto
  have "list_all (\<lambda>m'. \<not> touches m' (base y) (end_addr y)) xs
        = list_all (\<lambda>m'. \<not> touches m' (base y) (end_addr y)) ys"
    using tl Cons.hyps by (simp add: list_all_length touches_def)
  with hd Cons.IH [OF tl] show ?case by simp
qed

lemma ok_count_update:
  "k < length ms \<Longrightarrow> identity_maps_ok (ms[k := (ms ! k)\<lparr>count := c\<rparr>]) = identity_maps_ok ms"
  by (rule ok_same_ranges) (simp_all add: nth_list_update)

lemma ok_remove: "identity_maps_ok (pre @ m # post) \<Longrightarrow> identity_maps_ok (pre @ post)"
  by (auto simp: ok_append list_all_iff)

lemma ok_insert:
  assumes "identity_maps_ok ms" "b < e" "list_all (\<lambda>m. \<not> touches m b e) ms"
  shows "identity_maps_ok (ms @ [\<lparr>base = b, end_addr = e, access = a, count = c\<rparr>])"
  using assms by (auto simp: ok_append list_all_iff touches_def)

lemma identity_mapping_preserves_ok:
  assumes ok: "identity_maps_ok (identity_maps d)" and lt: "b < e"
    and call: "iommu_identity_mapping debug ops alloc_ok d p2ma b e flag = Returned (r, d')"
  shows "identity_maps_ok (identity_maps d')"
proof (cases "list_ex (\<lambda>m. exact m b e) (identity_maps d)")
  case True
  then obtain k where k: "k < length (identity_maps d)" and ex: "exact (identity_maps d ! k) b e"
    by (auto simp: list_ex_length)
  let ?ms = "identity_maps d"
  have split: "?ms = take k ?ms @ ?ms ! k # drop (Suc k) ?ms"
    using k by (simp add: id_take_nth_drop)
  have rm: "identity_maps_ok (take k ?ms @ drop (Suc k) ?ms)"
    using ok split ok_remove by metis
  show ?thesis
  proof (cases "p2ma = p2m_access_x")
    case True
    with call release_at_exact [OF ok k ex, of debug ops alloc_ok flag] ok k rm show ?thesis
      by (auto simp: ok_count_update split: if_splits prod.splits)
  next
    case False
    with call grant_at_exact [OF ok False k ex, of debug ops alloc_ok flag] ok k show ?thesis
      by (auto simp: ok_count_update split: if_splits)
  qed
next
  case False
  then have nex: "list_all (\<lambda>m. \<not> exact m b e) (identity_maps d)"
    by (simp add: list_all_iff list_ex_iff)
  show ?thesis
  proof (cases "list_ex (\<lambda>m. touches m b e) (identity_maps d)")
    case True
    with call call_conflict [OF lt nex True, of debug ops alloc_ok p2ma flag] ok show ?thesis
      by simp
  next
    case False
    then have nt: "list_all (\<lambda>m. \<not> touches m b e) (identity_maps d)"
      by (simp add: list_all_iff list_ex_iff)
    show ?thesis
    proof (cases "p2ma = p2m_access_x")
      case True
      with call release_unmatched [OF lt nt, of debug ops alloc_ok flag] ok show ?thesis
        by simp
    next
      case False
      with call grant_unmatched [OF False lt nt, of debug ops alloc_ok flag] ok
        ok_insert [OF ok lt nt]
      show ?thesis
        by (auto split: if_splits prod.splits)
    qed
  qed
qed

text \<open>
  Claim C1. In a registry built by grants and releases, a grant (an access class other than
  the revoke marker) of a range that is exactly the range of the live entry at position \<open>k\<close>
  adds one to that entry's reference count and returns 0 when the entry has the requested
  access, and returns \<open>-EADDRINUSE\<close> with the guest unchanged when the access differs.
  Hence a grant that created the entry (it returned 0 where no entry had that exact range),
  repeated with the same arguments, leaves the entry with reference count 2.
\<close>

theorem grant_exact_match:
  assumes ok: "identity_maps_ok (identity_maps d)" and lt: "b < e"
    and nx: "p2ma \<noteq> p2m_access_x"
  shows
    "(\<forall>k < length (identity_maps d). exact (identity_maps d ! k) b e \<longrightarrow>
        iommu_identity_mapping debug ops alloc_ok d p2ma b e flag =
          (if access (identity_maps d ! k) = p2ma then
             Returned (0, d\<lparr>identity_maps := (identity_maps d)
               [k := (identity_maps d ! k)\<lparr>count := count (identity_maps d ! k) + 1\<rparr>]\<rparr>)
           else Returned (- EADDRINUSE, d)))
     \<and> (\<forall>d1. list_all (\<lambda>m. \<not> exact m b e) (identity_maps d) \<and>
          iommu_identity_mapping debug ops alloc_ok d p2ma b e flag = Returned (0, d1) \<longrightarrow>
          iommu_identity_mapping debug ops alloc_ok d1 p2ma b e flag =
            Returned (0, d1\<lparr>identity_maps := identity_maps d @
              [\<lparr>base = b, end_addr = e, access = p2ma, count = 2\<rparr>]\<rparr>))"
proof (intro conjI allI impI)
  fix k
  assume "k < length (identity_maps d)" "exact (identity_maps d ! k) b e"
  then show "iommu_identity_mapping debug ops alloc_ok d p2ma b e flag =
          (if access (identity_maps d ! k) = p2ma then
             Returned (0, d\<lparr>identity_maps := (identity_maps d)
               [k := (identity_maps d ! k)\<lparr>count := count (identity_maps d ! k) + 1\<rparr>]\<rparr>)
           else Returned (- EADDRINUSE, d))"
    by (rule grant_at_exact [OF ok nx])
next
  fix d1
  let ?ms = "identity_maps d"
  let ?new = "\<lparr>base = b, end_addr = e, access = p2ma, count = 1\<rparr>"
  assume a: "list_all (\<lambda>m. \<not> exact m b e) ?ms \<and>
          iommu_identity_mapping debug ops alloc_ok d p2ma b e flag = Returned (0, d1)"
  then have nex: "list_all (\<lambda>m. \<not> exact m b e) ?ms"
    and first: "iommu_identity_mapping debug ops alloc_ok d p2ma b e flag = Returned (0, d1)"
    by simp_all
  have nt: "list_all (\<lambda>m. \<not> touches m b e) ?ms"
  proof (rule ccontr)
    assume "\<not> list_all (\<lambda>m. \<not> touches m b e) ?ms"
    then have "list_ex (\<lambda>m. touches m b e) ?ms"
      by (simp add: list_all_iff list_ex_iff)
    from call_conflict [OF lt nex this, of debug ops alloc_ok p2ma flag] first
    show False by simp
  qed
  from first grant_unmatched [OF nx lt nt, of debug ops alloc_ok flag]
  have ms1: "identity_maps d1 = ?ms @ [?new]"
    by (auto split: prod.splits if_splits)
  have ok1: "identity_maps_ok (identity_maps d1)"
    using ms1 ok_insert [OF ok lt nt] by simp
  have k1: "length ?ms < length (identity_maps d1)"
    and ex1: "exact (identity_maps d1 ! length ?ms) b e"
    and acc1: "access (identity_maps d1 ! length ?ms) = p2ma"
    by (simp_all add: ms1 exact_def)
  show "iommu_identity_mapping debug ops alloc_ok d1 p2ma b e flag =
            Returned (0, d1\<lparr>identity_maps := ?ms @
              [\<lparr>base = b, end_addr = e, access = p2ma, count = 2\<rparr>]\<rparr>)"
    using grant_at_exact [OF ok1 nx k1 ex1, of debug ops alloc_ok flag] acc1
    by (simp add: ms1)
qed

text \<open>
  On the empty registry a read-write grant of \<open>[0x1000, 0x3000)\<close> maps the frames 1 and 2
  and creates the entry, held once; a second read-write grant makes the count 2; a read-only
  grant of the same range is refused.
\<close>

theorem grant_exact_match_witness:
  "iommu_identity_mapping True example_p2m_ops True \<lparr>identity_maps = [], p2m = []\<rparr>
      p2m_access_rw 0x1000 0x3000 0
    = Returned (0,
      \<lparr>identity_maps = [\<lparr>base = 0x1000, end_addr = 0x3000, access = p2m_access_rw, count = 1\<rparr>],
       p2m = [1, 2]\<rparr>)
   \<and> iommu_identity_mapping True example_p2m_ops True
      \<lparr>identity_maps = [\<lparr>base = 0x1000, end_addr = 0x3000, access = p2m_access_rw, count = 1\<rparr>],
       p2m = [1, 2]\<rparr> p2m_access_rw 0x1000 0x3000 0
    = Returned (0,
      \<lparr>identity_maps = [\<lparr>base = 0x1000, end_addr = 0x3000, access = p2m_access_rw, count = 2\<rparr>],
       p2m = [1, 2]\<rparr>)
   \<and> iommu_identity_mapping True example_p2m_ops True
      \<lparr>identity_maps = [\<lparr>base = 0x1000, end_addr = 0x3000, access = p2m_access_rw, count = 1\<rparr>],
       p2m = [1, 2]\<rparr> p2m_access_r 0x1000 0x3000 0
    = Returned (- EADDRINUSE,
      \<lparr>identity_maps = [\<lparr>base = 0x1000, end_addr = 0x3000, access = p2m_access_rw, count = 1\<rparr>],
       p2m = [1, 2]\<rparr>)"
proof -
  let ?d = "\<lparr>identity_maps = [\<lparr>base = 0x1000, end_addr = 0x3000, access = p2m_access_rw, count = 1\<rparr>],
       p2m = [1, 2 :: ulong]\<rparr>"
  have ok: "identity_maps_ok (identity_maps ?d)" by simp
  have lt: "(0x1000 :: paddr_t) < 0x3000" by simp
  have "p2m_access_rw \<noteq> p2m_access_x" by simp
  note rw = grant_exact_match [OF ok lt this, of True example_p2m_ops True 0]
  have "p2m_access_r \<noteq> p2m_access_x" by simp
  note r = grant_exact_match [OF ok lt this, of True example_p2m_ops True 0]
  have first: "iommu_identity_mapping True example_p2m_ops True \<lparr>identity_maps = [], p2m = []\<rparr>
      p2m_access_rw 0x1000 0x3000 0 = Returned (0, ?d)"
    by (simp add: iommu_identity_mapping_def PAGE_SHIFT_4K_def PAGE_ALIGN_4K_def
        example_p2m_ops_def set_frames.simps)
  show ?thesis
    using rw r first by (simp add: exact_def)
qed

text \<open>
  Claim C2, as the code has it. A grant of a range that is the exact range of no live entry
  returns \<open>-EADDRINUSE\<close> and changes nothing when some entry is in conflict with the range;
  the test is inclusive at both ends, so an overlapping entry is in conflict, and so is an
  entry that only touches the range (\<open>end = map->base\<close> or \<open>map->end = base\<close>). When no
  entry is in conflict, the frames of the range are mapped one by one in rising order; the
  first failure is returned with the frames mapped so far left in place; when all frames are
  mapped, an entry for the range with reference count 1 is appended, unless its allocation
  fails.
\<close>

theorem grant_without_exact_match:
  assumes nx: "p2ma \<noteq> p2m_access_x" and lt: "b < e"
    and nex: "list_all (\<lambda>m. \<not> exact m b e) (identity_maps d)"
  shows
    "(list_ex (\<lambda>m. overlaps m b e) (identity_maps d) \<longrightarrow>
        iommu_identity_mapping debug ops alloc_ok d p2ma b e flag = Returned (- EADDRINUSE, d))
     \<and> (list_ex (\<lambda>m. touches m b e) (identity_maps d) \<longrightarrow>
        iommu_identity_mapping debug ops alloc_ok d p2ma b e flag = Returned (- EADDRINUSE, d))
     \<and> (list_all (\<lambda>m. \<not> touches m b e) (identity_maps d) \<longrightarrow>
        iommu_identity_mapping debug ops alloc_ok d p2ma b e flag =
          (case foldl (set_step ops p2ma flag) (0, p2m d)
                  (frames (drop_bit PAGE_SHIFT_4K b) (drop_bit PAGE_SHIFT_4K (PAGE_ALIGN_4K e))) of
             (err, p') \<Rightarrow>
               if err \<noteq> 0 then Returned (err, d\<lparr>p2m := p'\<rparr>)
               else if alloc_ok then
                 Returned (0, d\<lparr>identity_maps := identity_maps d @
                   [\<lparr>base = b, end_addr = e, access = p2ma, count = 1\<rparr>], p2m := p'\<rparr>)
               else Returned (- ENOMEM, d\<lparr>p2m := p'\<rparr>)))"
proof (intro conjI impI)
  assume "list_ex (\<lambda>m. overlaps m b e) (identity_maps d)"
  then have "list_ex (\<lambda>m. touches m b e) (identity_maps d)"
    by (auto simp: list_ex_iff dest: overlaps_touches)
  then show "iommu_identity_mapping debug ops alloc_ok d p2ma b e flag = Returned (- EADDRINUSE, d)"
    by (rule call_conflict [OF lt nex])
next
  assume "list_ex (\<lambda>m. touches m b e) (identity_maps d)"
  then show "iommu_identity_mapping debug ops alloc_ok d p2ma b e flag = Returned (- EADDRINUSE, d)"
    by (rule call_conflict [OF lt nex])
next
  assume nt: "list_all (\<lambda>m. \<not> touches m b e) (identity_maps d)"
  show "iommu_identity_mapping debug ops alloc_ok d p2ma b e flag =
          (case foldl (set_step ops p2ma flag) (0, p2m d)
                  (frames (drop_bit PAGE_SHIFT_4K b) (drop_bit PAGE_SHIFT_4K (PAGE_ALIGN_4K e))) of
             (err, p') \<Rightarrow>
               if err \<noteq> 0 then Returned (err, d\<lparr>p2m := p'\<rparr>)
               else if alloc_ok then
                 Returned (0, d\<lparr>identity_maps := identity_maps d @
                   [\<lparr>base = b, end_addr = e, access = p2ma, count = 1\<rparr>], p2m := p'\<rparr>)
               else Returned (- ENOMEM, d\<lparr>p2m := p'\<rparr>))"
    by (simp add: grant_unmatched [OF nx lt nt] set_frames_foldl split: prod.splits)
qed

text \<open>
  Next to the entry \<open>[0x1000, 0x2000)\<close>, a grant of \<open>[0x4000, 0x6000)\<close> maps the frames
  4 and 5 and appends its entry; a grant of \<open>[0x2000, 0x4000)\<close> against the entry
  \<open>[0x1000, 0x3000)\<close> is refused.
\<close>

theorem grant_without_exact_match_witness:
  "iommu_identity_mapping True example_p2m_ops True
      \<lparr>identity_maps = [\<lparr>base = 0x1000, end_addr = 0x2000, access = p2m_access_rw, count = 1\<rparr>],
       p2m = [1]\<rparr> p2m_access_r 0x4000 0x6000 0
    = Returned (0,
      \<lparr>identity_maps = [\<lparr>base = 0x1000, end_addr = 0x2000, access = p2m_access_rw, count = 1\<rparr>,
                        \<lparr>base = 0x4000, end_addr = 0x6000, access = p2m_access_r, count = 1\<rparr>],
       p2m = [1, 4, 5]\<rparr>)
   \<and> iommu_identity_mapping True example_p2m_ops True
      \<lparr>identity_maps = [\<lparr>base = 0x1000, end_addr = 0x3000, access = p2m_access_rw, count = 1\<rparr>],
       p2m = [1, 2]\<rparr> p2m_access_rw 0x2000 0x4000 0
    = Returned (- EADDRINUSE,
      \<lparr>identity_maps = [\<lparr>base = 0x1000, end_addr = 0x3000, access = p2m_access_rw, count = 1\<rparr>],
       p2m = [1, 2]\<rparr>)"
proof -
  let ?d1 = "\<lparr>identity_maps = [\<lparr>base = 0x1000, end_addr = 0x2000, access = p2m_access_rw, count = 1\<rparr>],
       p2m = [1 :: ulong]\<rparr>"
  let ?d2 = "\<lparr>identity_maps = [\<lparr>base = 0x1000, end_addr = 0x3000, access = p2m_access_rw, count = 1\<rparr>],
       p2m = [1, 2 :: ulong]\<rparr>"
  have nx1: "p2m_access_r \<noteq> p2m_access_x" and nx2: "p2m_access_rw \<noteq> p2m_access_x" by simp_all
  have lt1: "(0x4000 :: paddr_t) < 0x6000" and lt2: "(0x2000 :: paddr_t) < 0x4000" by simp_all
  have nex1: "list_all (\<lambda>m. \<not> exact m 0x4000 0x6000) (identity_maps ?d1)"
    and nex2: "list_all (\<lambda>m. \<not> exact m 0x2000 0x4000) (identity_maps ?d2)"
    by (simp_all add: exact_def)
  have fr: "frames 4 6 = [4, 5]"
    by (simp add: frames_Cons frames_Nil)
  show ?thesis
    using grant_without_exact_match [OF nx1 lt1 nex1, of True example_p2m_ops True 0]
      grant_without_exact_match [OF nx2 lt2 nex2, of True example_p2m_ops True 0]
    by (simp add: touches_def overlaps_def PAGE_SHIFT_4K_def PAGE_ALIGN_4K_def fr
        example_p2m_ops_def)
qed

text \<open>
  Claim C2 as stated fails for adjacent ranges: \<open>[0x2000, 0x3000)\<close> overlaps no frame
  of the live entry \<open>[0x1000, 0x2000)\<close> and is not its exact range, and yet the grant is
  refused with \<open>-EADDRINUSE\<close>: nothing is mapped and no entry is inserted.
\<close>

theorem grant_adjacent_range_counterexample:
  "\<not> overlaps \<lparr>base = 0x1000, end_addr = 0x2000, access = p2m_access_rw, count = 1\<rparr> 0x2000 0x3000
   \<and> \<not> exact \<lparr>base = 0x1000, end_addr = 0x2000, access = p2m_access_rw, count = 1\<rparr> 0x2000 0x3000
   \<and> iommu_identity_mapping True example_p2m_ops True
      \<lparr>identity_maps = [\<lparr>base = 0x1000, end_addr = 0x2000, access = p2m_access_rw, count = 1\<rparr>],
       p2m = [1]\<rparr> p2m_access_rw 0x2000 0x3000 0
    = Returned (- EADDRINUSE,
      \<lparr>identity_maps = [\<lparr>base = 0x1000, end_addr = 0x2000, access = p2m_access_rw, count = 1\<rparr>],
       p2m = [1]\<rparr>)"
  by (simp add: overlaps_def exact_def iommu_identity_mapping_def PAGE_SHIFT_4K_def
      PAGE_ALIGN_4K_def)

text \<open>
  Claim C3, as the code has it. In a registry built by grants and releases, a release (the
  revoke marker) of the exact range of the entry at position \<open>k\<close> takes one from its
  reference count; when the count reaches zero every frame of the range is unmapped in
  rising order, a failed unmap turning the result into \<open>-ENXIO\<close> without stopping the
  loop, and the entry is removed. When no entry has that exact range nothing changes, and
  the call returns \<open>-ENOENT\<close> if no entry is in conflict with the range and
  \<open>-EADDRINUSE\<close> if one is.
\<close>

theorem release_by_exact_range:
  assumes ok: "identity_maps_ok (identity_maps d)" and lt: "b < e"
  shows
    "(\<forall>k < length (identity_maps d). exact (identity_maps d ! k) b e \<longrightarrow>
        iommu_identity_mapping debug ops alloc_ok d p2m_access_x b e flag =
          (if count (identity_maps d ! k) - 1 \<noteq> 0 then
             Returned (0, d\<lparr>identity_maps := (identity_maps d)
               [k := (identity_maps d ! k)\<lparr>count := count (identity_maps d ! k) - 1\<rparr>]\<rparr>)
           else
             (case foldl (clear_step ops) (0, p2m d)
                     (frames (drop_bit PAGE_SHIFT_4K b)
                        (drop_bit PAGE_SHIFT_4K (PAGE_ALIGN_4K e))) of
                (ret, p') \<Rightarrow>
                  Returned (ret, d\<lparr>identity_maps :=
                    take k (identity_maps d) @ drop (Suc k) (identity_maps d), p2m := p'\<rparr>))))
     \<and> (list_all (\<lambda>m. \<not> exact m b e) (identity_maps d) \<longrightarrow>
        iommu_identity_mapping debug ops alloc_ok d p2m_access_x b e flag =
          Returned (if list_ex (\<lambda>m. touches m b e) (identity_maps d)
                    then - EADDRINUSE else - ENOENT, d))"
proof (intro conjI allI impI)
  fix k
  assume "k < length (identity_maps d)" "exact (identity_maps d ! k) b e"
  from release_at_exact [OF ok this, of debug ops alloc_ok flag]
  show "iommu_identity_mapping debug ops alloc_ok d p2m_access_x b e flag =
          (if count (identity_maps d ! k) - 1 \<noteq> 0 then
             Returned (0, d\<lparr>identity_maps := (identity_maps d)
               [k := (identity_maps d ! k)\<lparr>count := count (identity_maps d ! k) - 1\<rparr>]\<rparr>)
           else
             (case foldl (clear_step ops) (0, p2m d)
                     (frames (drop_bit PAGE_SHIFT_4K b)
                        (drop_bit PAGE_SHIFT_4K (PAGE_ALIGN_4K e))) of
                (ret, p') \<Rightarrow>
                  Returned (ret, d\<lparr>identity_maps :=
                    take k (identity_maps d) @ drop (Suc k) (identity_maps d), p2m := p'\<rparr>)))"
    by (simp add: clear_frames_foldl)
next
  assume nex: "list_all (\<lambda>m. \<not> exact m b e) (identity_maps d)"
  show "iommu_identity_mapping debug ops alloc_ok d p2m_access_x b e flag =
          Returned (if list_ex (\<lambda>m. touches m b e) (identity_maps d)
                    then - EADDRINUSE else - ENOENT, d)"
  proof (cases "list_ex (\<lambda>m. touches m b e) (identity_maps d)")
    case True
    then show ?thesis
      by (simp add: call_conflict [OF lt nex])
  next
    case False
    then have "list_all (\<lambda>m. \<not> touches m b e) (identity_maps d)"
      by (simp add: list_all_iff list_ex_iff)
    with False show ?thesis
      by (simp add: release_unmatched [OF lt])
  qed
qed

text \<open>
  Releasing \<open>[0x1000, 0x3000)\<close> held twice leaves it held once with its frames mapped;
  releasing it held once unmaps the frames 1 and 2 and removes the entry; releasing
  \<open>[0x1000, 0x4000)\<close> when the frame 2 is not mapped still unmaps the frames 1 and 3 and
  returns \<open>-ENXIO\<close>; releasing the unknown range \<open>[0x5000, 0x6000)\<close> returns
  \<open>-ENOENT\<close>.
\<close>

theorem release_by_exact_range_witness:
  "iommu_identity_mapping True example_p2m_ops True
      \<lparr>identity_maps = [\<lparr>base = 0x1000, end_addr = 0x3000, access = p2m_access_rw, count = 2\<rparr>],
       p2m = [1, 2]\<rparr> p2m_access_x 0x1000 0x3000 0
    = Returned (0,
      \<lparr>identity_maps = [\<lparr>base = 0x1000, end_addr = 0x3000, access = p2m_access_rw, count = 1\<rparr>],
       p2m = [1, 2]\<rparr>)
   \<and> iommu_identity_mapping True example_p2m_ops True
      \<lparr>identity_maps = [\<lparr>base = 0x1000, end_addr = 0x3000, access = p2m_access_rw, count = 1\<rparr>],
       p2m = [1, 2]\<rparr> p2m_access_x 0x1000 0x3000 0
    = Returned (0, \<lparr>identity_maps = [], p2m = []\<rparr>)
   \<and> iommu_identity_mapping True example_p2m_ops True
      \<lparr>identity_maps = [\<lparr>base = 0x1000, end_addr = 0x4000, access = p2m_access_rw, count = 1\<rparr>],
       p2m = [1, 3]\<rparr> p2m_access_x 0x1000 0x4000 0
    = Returned (- ENXIO, \<lparr>identity_maps = [], p2m = []\<rparr>)
   \<and> iommu_identity_mapping True example_p2m_ops True
      \<lparr>identity_maps = [\<lparr>base = 0x1000, end_addr = 0x3000, access = p2m_access_rw, count = 1\<rparr>],
       p2m = [1, 2]\<rparr> p2m_access_x 0x5000 0x6000 0
    = Returned (- ENOENT,
      \<lparr>identity_maps = [\<lparr>base = 0x1000, end_addr = 0x3000, access = p2m_access_rw, count = 1\<rparr>],
       p2m = [1, 2]\<rparr>)"
proof -
  let ?d2 = "\<lparr>identity_maps = [\<lparr>base = 0x1000, end_addr = 0x3000, access = p2m_access_rw, count = 2\<rparr>],
       p2m = [1, 2 :: ulong]\<rparr>"
  let ?d1 = "\<lparr>identity_maps = [\<lparr>base = 0x1000, end_addr = 0x3000, access = p2m_access_rw, count = 1\<rparr>],
       p2m = [1, 2 :: ulong]\<rparr>"
  let ?d3 = "\<lparr>identity_maps = [\<lparr>base = 0x1000, end_addr = 0x4000, access = p2m_access_rw, count = 1\<rparr>],
       p2m = [1, 3 :: ulong]\<rparr>"
  have ok: "identity_maps_ok (identity_maps ?d2)" "identity_maps_ok (identity_maps ?d1)"
    "identity_maps_ok (identity_maps ?d3)"
    by simp_all
  have lt: "(0x1000 :: paddr_t) < 0x3000" "(0x1000 :: paddr_t) < 0x4000" "(0x5000 :: paddr_t) < 0x6000"
    by simp_all
  have fr: "frames 1 3 = [1, 2]" "frames 1 4 = [1, 2, 3]"
    by (simp_all add: frames_Cons frames_Nil)
  show ?thesis
    using release_by_exact_range [OF ok(1) lt(1), of True example_p2m_ops True 0]
      release_by_exact_range [OF ok(2) lt(1), of True example_p2m_ops True 0]
      release_by_exact_range [OF ok(3) lt(2), of True example_p2m_ops True 0]
      release_by_exact_range [OF ok(2) lt(3), of True example_p2m_ops True 0]
    by (simp add: exact_def touches_def PAGE_SHIFT_4K_def PAGE_ALIGN_4K_def fr
        example_p2m_ops_def)
qed

text \<open>
  Claim C3 as stated fails where the released range has no exact entry but runs into a live
  one: releasing \<open>[0x2000, 0x4000)\<close> against the entry \<open>[0x1000, 0x3000)\<close> returns
  \<open>-EADDRINUSE\<close>, not the not-found error.
\<close>

theorem release_overlapping_range_counterexample:
  "\<not> exact \<lparr>base = 0x1000, end_addr = 0x3000, access = p2m_access_rw, count = 1\<rparr> 0x2000 0x4000
   \<and> iommu_identity_mapping True example_p2m_ops True
      \<lparr>identity_maps = [\<lparr>base = 0x1000, end_addr = 0x3000, access = p2m_access_rw, count = 1\<rparr>],
       p2m = [1, 2]\<rparr> p2m_access_x 0x2000 0x4000 0
    = Returned (- EADDRINUSE,
      \<lparr>identity_maps = [\<lparr>base = 0x1000, end_addr = 0x3000, access = p2m_access_rw, count = 1\<rparr>],
       p2m = [1, 2]\<rparr>)
   \<and> - EADDRINUSE \<noteq> - ENOENT"
  by (simp add: exact_def iommu_identity_mapping_def PAGE_SHIFT_4K_def PAGE_ALIGN_4K_def
      EADDRINUSE_def ENOENT_def)

text \<open>
  Claim C10. When no entry is in conflict with the granted range, every frame of the range
  is mapped successfully (leaving the table \<open>p'\<close>) and \<^verbatim>\<open>xmalloc\<close> then fails, the
  call returns \<open>-ENOMEM\<close>; the guest keeps the table \<open>p'\<close> with all the frames mapped,
  the entry list is the one before the call, and no entry of it has the range.
\<close>

theorem grant_entry_allocation_failure:
  assumes nx: "p2ma \<noteq> p2m_access_x" and lt: "b < e"
    and nt: "list_all (\<lambda>m. \<not> touches m b e) (identity_maps d)"
    and mapped: "foldl (set_step ops p2ma flag) (0, p2m d)
        (frames (drop_bit PAGE_SHIFT_4K b) (drop_bit PAGE_SHIFT_4K (PAGE_ALIGN_4K e))) = (0, p')"
  shows "iommu_identity_mapping debug ops False d p2ma b e flag = Returned (- ENOMEM, d\<lparr>p2m := p'\<rparr>)
     \<and> identity_maps (d\<lparr>p2m := p'\<rparr>) = identity_maps d
     \<and> list_all (\<lambda>m. \<not> exact m b e) (identity_maps (d\<lparr>p2m := p'\<rparr>))"
proof -
  have "list_all (\<lambda>m. \<not> exact m b e) (identity_maps d)"
    using nt lt by (auto simp: list_all_iff dest: exact_touches)
  then show ?thesis
    using mapped by (simp add: grant_unmatched [OF nx lt nt] set_frames_foldl)
qed

text \<open>
  On the empty registry, a grant of \<open>[0x1000, 0x3000)\<close> whose allocation fails leaves the
  frames 1 and 2 mapped and the registry empty.
\<close>

theorem grant_entry_allocation_failure_witness:
  "iommu_identity_mapping True example_p2m_ops False \<lparr>identity_maps = [], p2m = []\<rparr>
      p2m_access_rw 0x1000 0x3000 0
    = Returned (- ENOMEM, \<lparr>identity_maps = [], p2m = [1, 2]\<rparr>)"
proof -
  have nx: "p2m_access_rw \<noteq> p2m_access_x" by simp
  have lt: "(0x1000 :: paddr_t) < 0x3000" by simp
  have nt: "list_all (\<lambda>m. \<not> touches m 0x1000 0x3000)
      (identity_maps \<lparr>identity_maps = [], p2m = [] :: ulong list\<rparr>)"
    by simp
  have fr: "frames 1 3 = [1, 2]"
    by (simp add: frames_Cons frames_Nil)
  have mapped: "foldl (set_step example_p2m_ops p2m_access_rw 0)
      (0, p2m \<lparr>identity_maps = [], p2m = [] :: ulong list\<rparr>)
      (frames (drop_bit PAGE_SHIFT_4K 0x1000) (drop_bit PAGE_SHIFT_4K (PAGE_ALIGN_4K 0x3000)))
      = (0, [1, 2])"
    by (simp add: PAGE_SHIFT_4K_def PAGE_ALIGN_4K_def fr example_p2m_ops_def)
  show ?thesis
    using grant_entry_allocation_failure [OF nx lt nt mapped, of True] by simp
qed

lemma teardown_entries_empty: "teardown_entries ms = []"
  by (induction ms) simp_all

text \<open>
  Claim C9. Teardown leaves the guest's entry list empty and the p2m exactly as it was (no
  unmap is issued), and a second teardown changes nothing: the state after two calls is the
  state after one.
\<close>

theorem teardown_discards_all_and_is_idempotent:
  "identity_maps (iommu_identity_map_teardown d) = []
   \<and> p2m (iommu_identity_map_teardown d) = p2m d
   \<and> iommu_identity_map_teardown (iommu_identity_map_teardown d) = iommu_identity_map_teardown d"
  by (simp add: iommu_identity_map_teardown_def teardown_entries_empty)

section \<open>Properties of the Domain-ID allocator\<close>

lemma nat_or_high: "(idx::nat) < 2 ^ n \<Longrightarrow> idx OR 2 ^ n = idx + 2 ^ n"
proof -
  assume "idx < 2 ^ n"
  then have "\<not> bit idx n" by (simp add: bit_iff_odd)
  then have "idx AND 2 ^ n = 0" by (simp add: and_exp_eq_0_iff_not_bit)
  then show ?thesis by (simp add: disjunctive_add_eq_or)
qed

lemma nat_and_low: "(x::nat) AND 32767 = x mod 32768"
proof -
  have "(32767::nat) = mask 15" by (simp add: mask_eq_exp_minus_1)
  then have "x AND 32767 = take_bit 15 x" by (simp add: take_bit_eq_mask)
  then show ?thesis by (simp add: take_bit_eq_mod)
qed

lemma bias_unat: "idx < 32768 \<Longrightarrow> unat ((of_nat idx :: domid_t) OR 0x8000) = idx + 32768"
proof -
  assume a: "idx < 32768"
  have "unat ((of_nat idx :: domid_t) OR 0x8000)
        = unat (of_nat idx :: domid_t) OR unat (0x8000 :: domid_t)"
    by (simp add: unsigned_or_eq)
  also have "\<dots> = idx OR 2 ^ 15" using a by (simp add: unat_of_nat)
  also have "\<dots> = idx + 2 ^ 15" using a by (intro nat_or_high) simp
  finally show ?thesis by simp
qed

lemma unat_and_mask: "unat ((d :: domid_t) AND 0x7FFF) = unat d mod 32768"
proof -
  have "unat (d AND 0x7FFF) = unat d AND unat (0x7FFF :: domid_t)"
    by (simp add: unsigned_and_eq)
  then show ?thesis by (simp add: nat_and_low)
qed

lemma find_next_zero_bit_unfold_set:
  "offset < sz \<Longrightarrow> offset \<in> m \<Longrightarrow>
   find_next_zero_bit m sz offset = find_next_zero_bit m sz (offset + 1)"
  by (subst find_next_zero_bit.simps) simp

lemma find_next_zero_bit_unfold_clear:
  "offset < sz \<Longrightarrow> offset \<notin> m \<Longrightarrow> find_next_zero_bit m sz offset = offset"
  by (subst find_next_zero_bit.simps) simp

lemma find_next_zero_bit_unfold_end:
  "\<not> offset < sz \<Longrightarrow> find_next_zero_bit m sz offset = sz"
  by (subst find_next_zero_bit.simps) simp

lemma find_next_zero_bit_found:
  "find_next_zero_bit m sz offset < sz \<Longrightarrow>
   find_next_zero_bit m sz offset \<notin> m \<and> offset \<le> find_next_zero_bit m sz offset"
proof (induction m sz offset rule: find_next_zero_bit.induct)
  case (1 m sz offset)
  show ?case
  proof (cases "offset < sz")
    case False
    with "1.prems" show ?thesis by (simp add: find_next_zero_bit_unfold_end)
  next
    case lt: True
    show ?thesis
    proof (cases "offset \<in> m")
      case True
      have eq: "find_next_zero_bit m sz offset = find_next_zero_bit m sz (offset + 1)"
        using lt True by (rule find_next_zero_bit_unfold_set)
      from "1.IH" [OF lt True] "1.prems" eq show ?thesis by simp
    next
      case False
      then show ?thesis using lt by (simp add: find_next_zero_bit_unfold_clear)
    qed
  qed
qed

lemma find_next_zero_bit_none:
  "find_next_zero_bit m sz offset \<ge> sz \<longleftrightarrow> (\<forall>i. offset \<le> i \<and> i < sz \<longrightarrow> i \<in> m)"
proof (induction m sz offset rule: find_next_zero_bit.induct)
  case (1 m sz offset)
  show ?case
  proof (cases "offset < sz")
    case False
    then have "\<forall>i. offset \<le> i \<and> i < sz \<longrightarrow> i \<in> m" by auto
    with False show ?thesis by (simp add: find_next_zero_bit_unfold_end)
  next
    case lt: True
    show ?thesis
    proof (cases "offset \<in> m")
      case True
      have eq: "find_next_zero_bit m sz offset = find_next_zero_bit m sz (offset + 1)"
        using lt True by (rule find_next_zero_bit_unfold_set)
      have "(\<forall>i. offset \<le> i \<and> i < sz \<longrightarrow> i \<in> m) \<longleftrightarrow> (\<forall>i. offset + 1 \<le> i \<and> i < sz \<longrightarrow> i \<in> m)"
      proof
        assume "\<forall>i. offset \<le> i \<and> i < sz \<longrightarrow> i \<in> m"
        then show "\<forall>i. offset + 1 \<le> i \<and> i < sz \<longrightarrow> i \<in> m" by simp
      next
        assume r: "\<forall>i. offset + 1 \<le> i \<and> i < sz \<longrightarrow> i \<in> m"
        show "\<forall>i. offset \<le> i \<and> i < sz \<longrightarrow> i \<in> m"
        proof (intro allI impI)
          fix i assume "offset \<le> i \<and> i < sz"
          then have "i = offset \<or> (offset + 1 \<le> i \<and> i < sz)" by arith
          with r True show "i \<in> m" by blast
        qed
      qed
      with eq "1.IH" [OF lt True] show ?thesis by simp
    next
      case False
      have "find_next_zero_bit m sz offset = offset"
        using lt False by (rule find_next_zero_bit_unfold_clear)
      with lt False show ?thesis by auto
    qed
  qed
qed


lemma consts_domid [simp]:
  "UINT16_MAX - DOMID_MASK = 32768" "(1 + of_nat DOMID_MASK :: domid_t) = 0x8000"
  "(of_nat DOMID_MASK :: domid_t) = 0x7FFF"
  by (simp_all add: UINT16_MAX_def DOMID_MASK_def)

lemma alloc_domid_cases:
  "(\<forall>i < 32768. i \<in> m) \<and> iommu_alloc_domid m start = (DOMID_INVALID, m, start)
   \<or> (\<exists>idx < 32768. idx \<notin> m \<and>
        iommu_alloc_domid m start = (of_nat idx OR 0x8000, insert idx m, idx + 1))"
proof (cases "find_next_zero_bit m 32768 start \<ge> 32768")
  case wrap: True
  show ?thesis
  proof (cases "find_next_zero_bit m 32768 0 \<ge> 32768")
    case True
    then have "\<forall>i < 32768. i \<in> m"
      by (simp add: find_next_zero_bit_none)
    with wrap True show ?thesis
      by (simp add: iommu_alloc_domid_def Let_def find_first_zero_bit_def)
  next
    case False
    then have lt: "find_next_zero_bit m 32768 0 < 32768" by simp
    from find_next_zero_bit_found [OF lt] have "find_next_zero_bit m 32768 0 \<notin> m" by simp
    with wrap lt show ?thesis
      by (auto simp: iommu_alloc_domid_def Let_def find_first_zero_bit_def set_bit_nr_def)
  qed
next
  case False
  then have lt: "find_next_zero_bit m 32768 start < 32768" by simp
  from find_next_zero_bit_found [OF lt] have "find_next_zero_bit m 32768 start \<notin> m" by simp
  with lt show ?thesis
    by (auto simp: iommu_alloc_domid_def Let_def set_bit_nr_def)
qed

lemma invalid_below_bias: "idx < 32768 \<Longrightarrow> (of_nat idx OR 0x8000 :: domid_t) \<noteq> DOMID_INVALID"
proof
  assume a: "idx < 32768" and "(of_nat idx OR 0x8000 :: domid_t) = DOMID_INVALID"
  then have "unat (of_nat idx OR 0x8000 :: domid_t) = unat DOMID_INVALID" by simp
  with a show False by (simp add: bias_unat DOMID_INVALID_def)
qed

lemma bias_inj:
  "idx < 32768 \<Longrightarrow> j < 32768 \<Longrightarrow> (of_nat idx OR 0x8000 :: domid_t) = of_nat j OR 0x8000 \<Longrightarrow> idx = j"
proof -
  assume a: "idx < 32768" "j < 32768" and "(of_nat idx OR 0x8000 :: domid_t) = of_nat j OR 0x8000"
  then have "unat (of_nat idx OR 0x8000 :: domid_t) = unat (of_nat j OR 0x8000 :: domid_t)" by simp
  with a show ?thesis by (simp add: bias_unat)
qed

lemma outstanding_iff:
  "d \<in> outstanding m \<longleftrightarrow> (\<exists>j \<in> m. j < 32768 \<and> d = of_nat j OR 0x8000)"
  by (auto simp: outstanding_def)

text \<open>
  Claim C4. For every bitmap and cursor, \<^verbatim>\<open>iommu_alloc_domid\<close> returns
  \<open>DOMID_INVALID\<close> exactly when every bit of the space is set, and then changes nothing.
  Otherwise it picks an index whose bit was clear, sets that bit, moves the cursor just
  past it, and returns the index biased by \<open>DOMID_MASK + 1\<close>: the identifier lies
  strictly above \<open>DOMID_MASK\<close>, the range of the primary guest identifiers, and it is
  none of the identifiers checked out of the bitmap.
\<close>

theorem alloc_domid_result:
  "(fst (iommu_alloc_domid m start) = DOMID_INVALID \<longleftrightarrow> (\<forall>i < UINT16_MAX - DOMID_MASK. i \<in> m))
   \<and> (fst (iommu_alloc_domid m start) = DOMID_INVALID \<longrightarrow>
        iommu_alloc_domid m start = (DOMID_INVALID, m, start))
   \<and> (fst (iommu_alloc_domid m start) \<noteq> DOMID_INVALID \<longrightarrow>
        (\<exists>idx < UINT16_MAX - DOMID_MASK. idx \<notin> m
           \<and> iommu_alloc_domid m start =
               (of_nat idx OR of_nat (DOMID_MASK + 1), insert idx m, idx + 1)
           \<and> unat (fst (iommu_alloc_domid m start)) = idx + (DOMID_MASK + 1))
        \<and> unat (fst (iommu_alloc_domid m start)) > DOMID_MASK
        \<and> fst (iommu_alloc_domid m start) \<notin> outstanding m)"
proof -
  consider (full) "\<forall>i < 32768. i \<in> m" "iommu_alloc_domid m start = (DOMID_INVALID, m, start)"
    | (free) idx where "idx < 32768" "idx \<notin> m"
        "iommu_alloc_domid m start = (of_nat idx OR 0x8000, insert idx m, idx + 1)"
    using alloc_domid_cases [of m start] by blast
  then show ?thesis
  proof cases
    case full
    then show ?thesis by simp
  next
    case free
    have ne: "(of_nat idx OR 0x8000 :: domid_t) \<noteq> DOMID_INVALID"
      using free(1) by (rule invalid_below_bias)
    have un: "unat (of_nat idx OR 0x8000 :: domid_t) = idx + 32768"
      using free(1) by (rule bias_unat)
    have out: "(of_nat idx OR 0x8000 :: domid_t) \<notin> outstanding m"
      using free(1,2) by (auto simp: outstanding_iff dest: bias_inj)
    have nfull: "\<not> (\<forall>i < 32768. i \<in> m)"
      using free(1,2) by blast
    have dm: "DOMID_MASK + 1 = 32768" "DOMID_MASK < idx + 32768"
      by (simp_all add: DOMID_MASK_def)
    show ?thesis
      using free ne un out nfull dm by (auto simp del: of_nat_add)
  qed
qed

text \<open>
  A full bitmap gives \<open>DOMID_INVALID\<close>; with the bits 5 and 6 set and the cursor at 5, the
  identifier is \<open>0x8007\<close>; with the cursor at the last bit, which is set, the search wraps
  to the bit 0.
\<close>

theorem alloc_domid_result_witness:
  "iommu_alloc_domid {..<32768} 7 = (DOMID_INVALID, {..<32768}, 7)
   \<and> iommu_alloc_domid {5, 6} 5 = (0x8007, {7, 5, 6}, 8)
   \<and> (0x8007 :: domid_t) \<notin> outstanding {5, 6}
   \<and> iommu_alloc_domid {5, 32767} 32767 = (0x8000, {0, 5, 32767}, 1)"
proof -
  have a: "iommu_alloc_domid {5, 6} 5 = (0x8007, {7, 5, 6}, 8)"
    by (simp add: iommu_alloc_domid_def find_next_zero_bit.simps set_bit_nr_def)
  have b: "iommu_alloc_domid {5, 32767} 32767 = (0x8000, {0, 5, 32767}, 1)"
    by (simp add: iommu_alloc_domid_def find_next_zero_bit.simps set_bit_nr_def
        find_first_zero_bit_def)
  show ?thesis
    using alloc_domid_result [of "{..<32768}" 7] alloc_domid_result [of "{5, 6}" 5] a b
    by (simp add: DOMID_INVALID_def)
qed

text \<open>
  Claim C5. Freeing \<open>DOMID_INVALID\<close> returns with the bitmap untouched. Freeing another
  identifier above \<open>DOMID_MASK\<close> whose bit is set clears that bit, the bit being the
  identifier less the bias. Freeing an identifier whose bit is clear never returns: it ends
  in \<^verbatim>\<open>BUG()\<close>, or in the failed assertion on its range in a debug build.
\<close>

theorem free_domid_result:
  "iommu_free_domid debug DOMID_INVALID m = Returned m
   \<and> (domid \<noteq> DOMID_INVALID \<and> unat domid > DOMID_MASK \<and> unat (domid AND of_nat DOMID_MASK) \<in> m \<longrightarrow>
        iommu_free_domid debug domid m = Returned (m - {unat (domid AND of_nat DOMID_MASK)})
        \<and> unat (domid AND of_nat DOMID_MASK) = unat domid - (DOMID_MASK + 1))
   \<and> (domid \<noteq> DOMID_INVALID \<and> unat (domid AND of_nat DOMID_MASK) \<notin> m \<longrightarrow>
        iommu_free_domid debug domid m
          = (if debug \<and> \<not> unat domid > DOMID_MASK then AssertFailed else BugHalt))"
proof -
  have "unat domid > DOMID_MASK \<Longrightarrow> unat (domid AND 0x7FFF) = unat domid - 32768"
  proof -
    assume "unat domid > DOMID_MASK"
    then have "32768 \<le> unat domid" by (simp add: DOMID_MASK_def)
    moreover have "unat domid < 65536" using unsigned_less [of domid] by simp
    ultimately have "unat domid mod 32768 = unat domid - 32768"
      by (metis le_add_diff_inverse less_diff_conv2 mod_add_self1 mod_less numeral_Bit0)
    then show ?thesis by (simp add: unat_and_mask)
  qed
  then show ?thesis
    by (auto simp: iommu_free_domid_def test_and_clear_bit_def DOMID_MASK_def)
qed

text \<open>
  Freeing \<open>0x8007\<close> clears the bit 7; freeing it again halts in either build; freeing the
  identifier 4 of a primary guest fails the assertion of a debug build.
\<close>

theorem free_domid_result_witness:
  "iommu_free_domid True 0x8007 {7, 5, 6} = Returned {5, 6}
   \<and> iommu_free_domid True 0x8007 {5, 6} = BugHalt
   \<and> iommu_free_domid False 0x8007 {5, 6} = BugHalt
   \<and> iommu_free_domid True 4 {5, 6} = AssertFailed"
proof -
  have m: "unat ((0x8007 :: domid_t) AND of_nat DOMID_MASK) = 7"
    "unat ((4 :: domid_t) AND of_nat DOMID_MASK) = 4"
    by (simp_all add: DOMID_MASK_def)
  show ?thesis
    using free_domid_result [of True "{7, 5, 6}" "0x8007"]
      free_domid_result [of True "{5, 6}" "0x8007"]
      free_domid_result [of False "{5, 6}" "0x8007"]
      free_domid_result [of True "{5, 6}" 4]
    by (simp add: m DOMID_INVALID_def DOMID_MASK_def insert_Diff_if)
qed

section \<open>Properties of the page table arena\<close>

lemma ffs_odd: "odd x \<Longrightarrow> find_first_set_bit x = 0"
  by (subst find_first_set_bit.simps) simp

lemma ffs_even: "even x \<Longrightarrow> x \<noteq> 0 \<Longrightarrow> find_first_set_bit x = 1 + find_first_set_bit (x div 2)"
  by (subst find_first_set_bit.simps) simp

lemma ffs_group:
  assumes "4 dvd i"
  shows "find_first_set_bit (i + 1) = 0" "find_first_set_bit (i + 2) = 1"
    "find_first_set_bit (i + 3) = 0"
proof -
  from assms obtain j where i: "i = 4 * j" by (auto simp: dvd_def)
  show "find_first_set_bit (i + 1) = 0" by (simp add: i ffs_odd)
  show "find_first_set_bit (i + 3) = 0" by (simp add: i ffs_odd)
  have "(i + 2) div 2 = 2 * j + 1" by (simp add: i)
  then show "find_first_set_bit (i + 2) = 1" by (simp add: i ffs_even ffs_odd)
qed

lemma length_fill_markers: "length (fill_markers shift i p) = length p"
  by (induction shift i p rule: fill_markers.induct) (subst fill_markers.simps, simp)

lemma fill_markers_nth:
  "4 dvd i \<Longrightarrow> length p = PT_SLOTS \<Longrightarrow> k < PT_SLOTS \<Longrightarrow>
   fill_markers shift i p ! k =
     (if i \<le> k then push_bit shift (of_nat (find_first_set_bit k)) else p ! k)"
proof (induction shift i p rule: fill_markers.induct)
  case (1 shift i p)
  show ?case
  proof (cases "i < PT_SLOTS")
    case False
    with "1.prems" show ?thesis by (subst fill_markers.simps) simp
  next
    case True
    let ?p = "p[i + 0 := push_bit shift (of_nat (find_first_set_bit i)), i + 1 := 0,
               i + 2 := push_bit shift 1, i + 3 := 0]"
    have dvd: "4 dvd i + 4" using "1.prems"(1) by simp
    have len: "length ?p = PT_SLOTS" using "1.prems"(2) by simp
    have bound: "i + 3 < PT_SLOTS"
      using True "1.prems"(1) by (auto simp: PT_SLOTS_def dvd_def)
    have step: "fill_markers shift i p = fill_markers shift (i + 4) ?p"
      using True by (subst fill_markers.simps) simp
    have ih: "fill_markers shift (i + 4) ?p ! k =
      (if i + 4 \<le> k then push_bit shift (of_nat (find_first_set_bit k)) else ?p ! k)"
      by (rule "1.IH" [OF True dvd len "1.prems"(3)])
    consider "k < i" | "k = i" | "k = i + 1" | "k = i + 2" | "k = i + 3" | "i + 4 \<le> k"
      by linarith
    then show ?thesis
    proof cases
      case 1 then show ?thesis using ih step by simp
    next
      case 2 then show ?thesis using ih step bound "1.prems"(2) by simp
    next
      case 3 then show ?thesis using ih step bound "1.prems"(2) ffs_group(1) [OF "1.prems"(1)]
        by simp
    next
      case 4 then show ?thesis using ih step bound "1.prems"(2) ffs_group(2) [OF "1.prems"(1)]
        by simp
    next
      case 5 then show ?thesis using ih step bound "1.prems"(2) ffs_group(3) [OF "1.prems"(1)]
        by simp
    next
      case 6 then show ?thesis using ih step by simp
    qed
  qed
qed

lemma first_group_markers:
  assumes len: "length p = PT_SLOTS"
  shows "fill_markers shift 4
           (p[0 := push_bit shift (of_nat CONTIG_LEVEL_SHIFT), 1 := 0, 2 := push_bit shift 1, 3 := 0])
         = marker_page shift"
proof (rule nth_equalityI)
  let ?p = "p[0 := push_bit shift (of_nat CONTIG_LEVEL_SHIFT), 1 := 0, 2 := push_bit shift 1, 3 := 0]"
  show "length (fill_markers shift 4 ?p) = length (marker_page shift)"
    using len by (simp add: length_fill_markers marker_page_def)
  fix k
  assume "k < length (fill_markers shift 4 ?p)"
  then have k: "k < PT_SLOTS" using len by (simp add: length_fill_markers)
  have len': "length ?p = PT_SLOTS" using len by simp
  have nth: "fill_markers shift 4 ?p ! k =
      (if 4 \<le> k then push_bit shift (of_nat (find_first_set_bit k)) else ?p ! k)"
    by (rule fill_markers_nth [OF _ len' k]) simp
  have s1: "find_first_set_bit (Suc 0) = 0" by (simp add: ffs_odd)
  have "find_first_set_bit 2 = 1 + find_first_set_bit (2 div 2)" by (rule ffs_even) simp_all
  then have s2: "find_first_set_bit 2 = Suc 0" by (simp add: s1)
  have s3: "find_first_set_bit 3 = 0" by (simp add: ffs_odd)
  have s2': "find_first_set_bit (Suc (Suc 0)) = Suc 0" using s2 by (simp add: numeral_2_eq_2)
  have s3': "find_first_set_bit (Suc (Suc (Suc 0))) = 0" using s3 by (simp add: numeral_3_eq_3)
  have slots: "4 < PT_SLOTS" by (simp add: PT_SLOTS_def)
  consider "k = 0" | "k = 1" | "k = 2" | "k = 3" | "4 \<le> k" by linarith
  then show "fill_markers shift 4 ?p ! k = marker_page shift ! k"
    using nth k len slots s1 s2 s3 s2' s3' by cases (simp_all add: marker_page_def)
qed

lemma alloc_pgtable_marked:
  assumes "length (page_data hdom pg) = PT_SLOTS" "contig_mask \<noteq> 0"
    "debug \<longrightarrow> contig_assert contig_mask"
  shows "iommu_alloc_pgtable debug contig_mask (Some pg) hdom =
     Returned (Some pg, hdom\<lparr>pgtables_list := pg # pgtables_list hdom,
       page_data := (page_data hdom)
         (pg := marker_page (find_first_set_bit (unat contig_mask)))\<rparr>)"
proof -
  have "\<not> (debug \<and> of_nat CONTIG_LEVEL_SHIFT
            AND drop_bit (find_first_set_bit (unat contig_mask)) contig_mask
          \<noteq> (of_nat CONTIG_LEVEL_SHIFT :: 64 word))"
    using assms(3) by (simp add: contig_assert_def)
  then show ?thesis
    unfolding iommu_alloc_pgtable_def Let_def
    by (simp only: option.case assms(2) not_False_eq_True if_True if_False
        first_group_markers [OF assms(1)])
qed

lemma alloc_pgtable_cleared:
  "iommu_alloc_pgtable debug 0 (Some pg) hdom =
     Returned (Some pg, hdom\<lparr>pgtables_list := pg # pgtables_list hdom,
       page_data := (page_data hdom)(pg := replicate PT_SLOTS 0)\<rparr>)"
  by (simp add: iommu_alloc_pgtable_def)

lemma alloc_pgtable_returns:
  "iommu_alloc_pgtable debug contig_mask new_pg hdom = Returned (Some pg, hdom') \<Longrightarrow>
   new_pg = Some pg \<and> (contig_mask \<noteq> 0 \<and> debug \<longrightarrow> contig_assert contig_mask)"
  by (auto simp: iommu_alloc_pgtable_def Let_def contig_assert_def split: option.splits if_splits)

lemma marker_page_nth:
  "k < PT_SLOTS \<Longrightarrow> marker_page shift ! k =
     push_bit shift (of_nat (if k = 0 then CONTIG_LEVEL_SHIFT else find_first_set_bit k))"
  by (simp add: marker_page_def)

lemma decode_marker:
  "drop_bit n (push_bit n a AND m) = a AND drop_bit n (m :: 64 word)"
  by (rule bit_word_eqI) (auto simp: bit_simps dest: bit_imp_le_length)

lemma ffs_mod4: "k mod 4 = 2 \<Longrightarrow> find_first_set_bit k = 1"
proof -
  assume a: "k mod 4 = 2"
  then have "k = (k - 2) + 2" "4 dvd (k - 2)"
    by presburger+
  then show ?thesis using ffs_group(2) [of "k - 2"] by simp
qed

text \<open>
  Claim C7, as the code has it. A page returned by \<^verbatim>\<open>iommu_alloc_pgtable\<close> is put at the
  head of the guest's list. With a zero contiguity mask the page is all zero. With a
  non-zero mask, where \<open>shift\<close> is the lowest set bit of the mask: the slot 0 holds
  \<open>CONTIG_LEVEL_SHIFT << shift\<close> (and decodes to \<open>CONTIG_LEVEL_SHIFT\<close> through a mask that
  meets the assertion); the first slot of every later group of four holds the lowest set bit
  of its index, shifted; the third slot of every group (index 2 modulo 4) holds
  \<open>1 << shift\<close>, which is not zero; the slots of odd index are zero.
\<close>

theorem alloc_pgtable_contents:
  assumes ret: "iommu_alloc_pgtable debug contig_mask new_pg hdom = Returned (Some pg, hdom')"
    and len: "length (page_data hdom pg) = PT_SLOTS"
  shows "pgtables_list hdom' = pg # pgtables_list hdom
    \<and> (contig_mask = 0 \<longrightarrow> page_data hdom' pg = replicate PT_SLOTS 0)
    \<and> (contig_mask \<noteq> 0 \<longrightarrow>
          length (page_data hdom' pg) = PT_SLOTS
        \<and> page_data hdom' pg ! 0
            = push_bit (find_first_set_bit (unat contig_mask)) (of_nat CONTIG_LEVEL_SHIFT)
        \<and> (\<forall>k < PT_SLOTS. 0 < k \<and> 4 dvd k \<longrightarrow>
              page_data hdom' pg ! k
                = push_bit (find_first_set_bit (unat contig_mask)) (of_nat (find_first_set_bit k)))
        \<and> (\<forall>k < PT_SLOTS. k mod 4 = 2 \<longrightarrow>
              page_data hdom' pg ! k = push_bit (find_first_set_bit (unat contig_mask)) 1)
        \<and> (\<forall>k < PT_SLOTS. odd k \<longrightarrow> page_data hdom' pg ! k = 0)
        \<and> (contig_assert contig_mask \<longrightarrow>
              drop_bit (find_first_set_bit (unat contig_mask)) (page_data hdom' pg ! 0 AND contig_mask)
                = of_nat CONTIG_LEVEL_SHIFT))"
proof (cases "contig_mask = 0")
  case True
  from alloc_pgtable_returns [OF ret] have "new_pg = Some pg" by simp
  with ret True show ?thesis by (auto simp: alloc_pgtable_cleared)
next
  case False
  let ?shift = "find_first_set_bit (unat contig_mask)"
  from alloc_pgtable_returns [OF ret] False
  have pg: "new_pg = Some pg" and a: "debug \<longrightarrow> contig_assert contig_mask" by simp_all
  from ret have hdom': "hdom' = hdom\<lparr>pgtables_list := pg # pgtables_list hdom,
       page_data := (page_data hdom)(pg := marker_page ?shift)\<rparr>"
    by (simp add: pg alloc_pgtable_marked [OF len False a])
  have page: "page_data hdom' pg = marker_page ?shift" by (simp add: hdom')
  have pos: "0 < PT_SLOTS" by (simp add: PT_SLOTS_def)
  have "length (marker_page ?shift) = PT_SLOTS" by (simp add: marker_page_def)
  moreover have "marker_page ?shift ! 0 = push_bit ?shift (of_nat CONTIG_LEVEL_SHIFT)"
    using pos by (simp add: marker_page_nth)
  moreover have "\<forall>k < PT_SLOTS. 0 < k \<and> 4 dvd k \<longrightarrow>
      marker_page ?shift ! k = push_bit ?shift (of_nat (find_first_set_bit k))"
    by (simp add: marker_page_nth)
  moreover have "\<forall>k < PT_SLOTS. k mod 4 = 2 \<longrightarrow> marker_page ?shift ! k = push_bit ?shift 1"
    by (auto simp: marker_page_nth ffs_mod4)
  moreover have "\<forall>k < PT_SLOTS. odd k \<longrightarrow> marker_page ?shift ! k = 0"
    by (auto simp: marker_page_nth ffs_odd)
  moreover have "contig_assert contig_mask \<longrightarrow>
      drop_bit ?shift (marker_page ?shift ! 0 AND contig_mask) = of_nat CONTIG_LEVEL_SHIFT"
  proof
    assume "contig_assert contig_mask"
    then have "of_nat CONTIG_LEVEL_SHIFT AND drop_bit ?shift contig_mask
        = (of_nat CONTIG_LEVEL_SHIFT :: 64 word)"
      by (simp add: contig_assert_def)
    moreover have "marker_page ?shift ! 0 = push_bit ?shift (of_nat CONTIG_LEVEL_SHIFT)"
      using pos by (simp add: marker_page_nth)
    ultimately show "drop_bit ?shift (marker_page ?shift ! 0 AND contig_mask)
        = of_nat CONTIG_LEVEL_SHIFT"
      by (simp only: decode_marker)
  qed
  ultimately show ?thesis
    using False by (simp add: page) (simp add: hdom')
qed

lemma ffs_vtd_mask: "find_first_set_bit 0xF0000000000000 = 52"
  by (simp add: ffs_even ffs_odd)

lemma vtd_assert: "contig_assert 0xF0000000000000"
  by (simp add: contig_assert_def ffs_vtd_mask CONTIG_LEVEL_SHIFT_def)

text \<open>
  Claim C7 as stated fails on the third slot of a group: with the mask \<open>0xF << 52\<close> the
  slot 2 of the page returned is \<open>1 << 52\<close>, not zero.
\<close>

theorem alloc_pgtable_third_slot_counterexample:
  "iommu_alloc_pgtable True 0xF0000000000000 (Some 7)
      \<lparr>pgtables_list = [], root_pgtable = (), page_data = (\<lambda>_. replicate 512 0), heap_freed = []\<rparr>
    = Returned (Some 7,
      \<lparr>pgtables_list = [7], root_pgtable = (),
       page_data = (\<lambda>_. replicate 512 0)(7 := marker_page 52), heap_freed = []\<rparr>)
   \<and> marker_page 52 ! 2 = 0x10000000000000
   \<and> marker_page 52 ! 2 \<noteq> 0"
proof -
  let ?h = "\<lparr>pgtables_list = [], root_pgtable = (), page_data = (\<lambda>_. replicate 512 0),
            heap_freed = []\<rparr>"
  have len: "length (page_data ?h 7) = PT_SLOTS" by (simp add: PT_SLOTS_def)
  have nz: "(0xF0000000000000 :: 64 word) \<noteq> 0" by simp
  have a: "True \<longrightarrow> contig_assert 0xF0000000000000" by (simp add: vtd_assert)
  have "find_first_set_bit 2 = 1" by (rule ffs_mod4) simp
  then have "marker_page 52 ! 2 = 0x10000000000000"
    by (simp add: marker_page_nth PT_SLOTS_def)
  then show ?thesis
    using alloc_pgtable_marked [OF len nz a] by (simp add: ffs_vtd_mask)
qed

text \<open>
  With the mask \<open>0xF << 52\<close> and a page that held \<open>0xAA\<close> in every slot: the slot 0 is
  \<open>9 << 52\<close> and decodes to 9, the slot 8 is \<open>3 << 52\<close>, the slot 6 is \<open>1 << 52\<close>, the
  slot 5 is zero. With the mask 0 the page is all zero.
\<close>

theorem alloc_pgtable_contents_witness:
  "iommu_alloc_pgtable True 0xF0000000000000 (Some 7)
      \<lparr>pgtables_list = [3], root_pgtable = (), page_data = (\<lambda>_. replicate 512 0xAA), heap_freed = []\<rparr>
    = Returned (Some 7,
      \<lparr>pgtables_list = [7, 3], root_pgtable = (),
       page_data = (\<lambda>_. replicate 512 0xAA)(7 := marker_page 52), heap_freed = []\<rparr>)
   \<and> marker_page 52 ! 0 = 0x90000000000000
   \<and> marker_page 52 ! 8 = 0x30000000000000
   \<and> marker_page 52 ! 6 = 0x10000000000000
   \<and> marker_page 52 ! 5 = 0
   \<and> drop_bit 52 (marker_page 52 ! 0 AND 0xF0000000000000) = 9
   \<and> iommu_alloc_pgtable True 0 (Some 7)
      \<lparr>pgtables_list = [3], root_pgtable = (), page_data = (\<lambda>_. replicate 512 0xAA), heap_freed = []\<rparr>
    = Returned (Some 7,
      \<lparr>pgtables_list = [7, 3], root_pgtable = (),
       page_data = (\<lambda>_. replicate 512 0xAA)(7 := replicate 512 0), heap_freed = []\<rparr>)"
proof -
  let ?h = "\<lparr>pgtables_list = [3], root_pgtable = (), page_data = (\<lambda>_. replicate 512 0xAA),
            heap_freed = []\<rparr>"
  let ?h' = "\<lparr>pgtables_list = [7, 3], root_pgtable = (),
       page_data = (\<lambda>_. replicate 512 0xAA)(7 := marker_page 52), heap_freed = []\<rparr>"
  have len: "length (page_data ?h 7) = PT_SLOTS" by (simp add: PT_SLOTS_def)
  have nz: "(0xF0000000000000 :: 64 word) \<noteq> 0" by simp
  have a: "True \<longrightarrow> contig_assert 0xF0000000000000" by (simp add: vtd_assert)
  have ret: "iommu_alloc_pgtable True 0xF0000000000000 (Some 7) ?h = Returned (Some 7, ?h')"
    using alloc_pgtable_marked [OF len nz a] by (simp add: ffs_vtd_mask)
  have zero: "iommu_alloc_pgtable True 0 (Some 7) ?h = Returned (Some 7,
      \<lparr>pgtables_list = [7, 3], root_pgtable = (),
       page_data = (\<lambda>_. replicate 512 0xAA)(7 := replicate 512 0), heap_freed = []\<rparr>)"
    by (simp add: alloc_pgtable_cleared PT_SLOTS_def)
  have f8: "find_first_set_bit 8 = 3" by (simp add: ffs_even ffs_odd)
  from alloc_pgtable_contents [OF ret len]
  have "marker_page 52 ! 0 = 0x90000000000000 \<and> marker_page 52 ! 8 = 0x30000000000000
     \<and> marker_page 52 ! 6 = 0x10000000000000 \<and> marker_page 52 ! 5 = 0
     \<and> drop_bit 52 (marker_page 52 ! 0 AND 0xF0000000000000) = 9"
    by (simp add: ffs_vtd_mask vtd_assert PT_SLOTS_def CONTIG_LEVEL_SHIFT_def f8)
  with ret zero show ?thesis by simp
qed

lemma uint_low_byte: "(of_nat m :: uint) AND 0xff = 0 \<longleftrightarrow> 256 dvd m"
proof -
  have "unat ((of_nat m :: uint) AND 0xff) = unat (of_nat m :: uint) AND unat (0xff :: uint)"
    by (simp add: unsigned_and_eq)
  also have "\<dots> = (m mod 2 ^ 32) AND mask 8"
    by (simp add: unat_of_nat mask_eq_exp_minus_1)
  also have "\<dots> = m mod 2 ^ 32 mod 2 ^ 8"
    by (simp add: take_bit_eq_mask [symmetric] take_bit_eq_mod)
  also have "\<dots> = m mod 256"
    by (simp add: mod_mod_cancel)
  finally have "unat ((of_nat m :: uint) AND 0xff) = m mod 256" .
  moreover have "(of_nat m :: uint) AND 0xff = 0 \<longleftrightarrow> unat ((of_nat m :: uint) AND 0xff) = 0"
    by (simp add: unat_eq_0)
  ultimately show ?thesis by (simp add: dvd_eq_mod_eq_0)
qed

lemma free_pgtables_loop_result:
  "free_pgtables_loop chk (of_nat n) n pgs freed = (rc, rest, freed') \<Longrightarrow>
     (rc = 0 \<and> rest = [] \<and> freed' = freed @ pgs)
   \<or> (rc = - ERESTART \<and>
       (\<exists>m. 0 < m \<and> m \<le> length pgs \<and> 256 dvd (n + m) \<and> chk (n + m)
          \<and> rest = drop m pgs \<and> freed' = freed @ take m pgs))"
proof (induction pgs arbitrary: n freed)
  case Nil
  then show ?case by simp
next
  case (Cons pg pgs)
  have low: "(of_nat n + 1 :: uint) AND 0xff = 0 \<longleftrightarrow> 256 dvd Suc n"
    using uint_low_byte [of "Suc n"] by (simp add: add.commute)
  show ?case
  proof (cases "256 dvd Suc n \<and> chk (Suc n)")
    case True
    with Cons.prems low have "rc = - ERESTART" "rest = pgs" "freed' = freed @ [pg]"
      by simp_all
    with True show ?thesis
      by (intro disjI2 conjI exI [of _ 1]) simp_all
  next
    case False
    with Cons.prems low
    have "free_pgtables_loop chk (of_nat (Suc n)) (Suc n) pgs (freed @ [pg]) = (rc, rest, freed')"
      by (auto simp: add.commute)
    from Cons.IH [OF this] show ?thesis
    proof
      assume "rc = 0 \<and> rest = [] \<and> freed' = (freed @ [pg]) @ pgs"
      then show ?thesis by simp
    next
      assume "rc = - ERESTART \<and>
       (\<exists>m. 0 < m \<and> m \<le> length pgs \<and> 256 dvd (Suc n + m) \<and> chk (Suc n + m)
          \<and> rest = drop m pgs \<and> freed' = (freed @ [pg]) @ take m pgs)"
      then obtain m where m: "rc = - ERESTART" "0 < m" "m \<le> length pgs" "256 dvd (Suc n + m)"
        "chk (Suc n + m)" "rest = drop m pgs" "freed' = (freed @ [pg]) @ take m pgs"
        by blast
      then show ?thesis
        by (intro disjI2 conjI exI [of _ "Suc m"]) simp_all
    qed
  qed
qed

lemma free_pgtables_loop_quiet:
  "(\<forall>m. 0 < m \<and> m \<le> length pgs \<and> 256 dvd (n + m) \<longrightarrow> \<not> chk (n + m)) \<Longrightarrow>
   free_pgtables_loop chk (of_nat n) n pgs freed = (0, [], freed @ pgs)"
proof (induction pgs arbitrary: n freed)
  case Nil
  then show ?case by simp
next
  case (Cons pg pgs)
  have low: "(of_nat n + 1 :: uint) AND 0xff = 0 \<longleftrightarrow> 256 dvd Suc n"
    using uint_low_byte [of "Suc n"] by (simp add: add.commute)
  have first: "\<not> (256 dvd Suc n \<and> chk (Suc n))"
    using Cons.prems [rule_format, of 1] by simp
  have rest: "\<forall>m. 0 < m \<and> m \<le> length pgs \<and> 256 dvd (Suc n + m) \<longrightarrow> \<not> chk (Suc n + m)"
  proof (intro allI impI)
    fix m assume "0 < m \<and> m \<le> length pgs \<and> 256 dvd (Suc n + m)"
    then show "\<not> chk (Suc n + m)"
      using Cons.prems [rule_format, of "Suc m"] by simp
  qed
  have "free_pgtables_loop chk (of_nat (Suc n)) (Suc n) pgs (freed @ [pg])
      = (0, [], (freed @ [pg]) @ pgs)"
    by (rule Cons.IH [OF rest])
  with first low show ?case by (auto simp: add.commute)
qed

lemma free_pgtables_loop_fires:
  "0 < m \<Longrightarrow> m \<le> length pgs \<Longrightarrow> 256 dvd (n + m) \<Longrightarrow> chk (n + m) \<Longrightarrow>
   (\<forall>k. 0 < k \<and> k < m \<and> 256 dvd (n + k) \<longrightarrow> \<not> chk (n + k)) \<Longrightarrow>
   free_pgtables_loop chk (of_nat n) n pgs freed = (- ERESTART, drop m pgs, freed @ take m pgs)"
proof (induction pgs arbitrary: n freed m)
  case Nil
  then show ?case by simp
next
  case (Cons pg pgs)
  have low: "(of_nat n + 1 :: uint) AND 0xff = 0 \<longleftrightarrow> 256 dvd Suc n"
    using uint_low_byte [of "Suc n"] by (simp add: add.commute)
  show ?case
  proof (cases "m = 1")
    case True
    with Cons.prems low show ?thesis by simp
  next
    case False
    with Cons.prems(1) obtain m' where m': "m = Suc m'" "0 < m'"
      by (cases m) auto
    have first: "\<not> (256 dvd Suc n \<and> chk (Suc n))"
      using Cons.prems(5) [rule_format, of 1] m' by simp
    have quiet: "\<forall>k. 0 < k \<and> k < m' \<and> 256 dvd (Suc n + k) \<longrightarrow> \<not> chk (Suc n + k)"
    proof (intro allI impI)
      fix k assume "0 < k \<and> k < m' \<and> 256 dvd (Suc n + k)"
      then show "\<not> chk (Suc n + k)"
        using Cons.prems(5) [rule_format, of "Suc k"] m' by simp
    qed
    have "free_pgtables_loop chk (of_nat (Suc n)) (Suc n) pgs (freed @ [pg])
        = (- ERESTART, drop m' pgs, (freed @ [pg]) @ take m' pgs)"
      using Cons.prems m' by (intro Cons.IH [OF _ _ _ _ quiet]) simp_all
    with first low m' show ?thesis by (auto simp: add.commute)
  qed
qed

lemma free_pgtables_enabled:
  "iommu_free_pgtables True clear_root_pgtable chk hdom =
     (case free_pgtables_loop chk (of_nat 0) 0 (pgtables_list hdom) (heap_freed hdom) of
        (rc, rest, freed) \<Rightarrow>
          (rc, hdom\<lparr>pgtables_list := rest,
                  root_pgtable := clear_root_pgtable (root_pgtable hdom),
                  heap_freed := freed\<rparr>))"
  by (simp add: iommu_free_pgtables_def)

lemma free_pgtables_quiet:
  assumes "\<forall>m. 0 < m \<and> m \<le> length (pgtables_list hdom) \<and> 256 dvd m \<longrightarrow> \<not> chk m"
  shows "iommu_free_pgtables True clear_root_pgtable chk hdom =
     (0, hdom\<lparr>pgtables_list := [],
              root_pgtable := clear_root_pgtable (root_pgtable hdom),
              heap_freed := heap_freed hdom @ pgtables_list hdom\<rparr>)"
proof -
  have "free_pgtables_loop chk (of_nat 0) 0 (pgtables_list hdom) (heap_freed hdom)
      = (0, [], heap_freed hdom @ pgtables_list hdom)"
    by (rule free_pgtables_loop_quiet) (use assms in simp)
  then show ?thesis by (simp add: free_pgtables_enabled)
qed

lemma free_pgtables_fires:
  assumes "0 < m" "m \<le> length (pgtables_list hdom)" "256 dvd m" "chk m"
    and "\<forall>k. 0 < k \<and> k < m \<and> 256 dvd k \<longrightarrow> \<not> chk k"
  shows "iommu_free_pgtables True clear_root_pgtable chk hdom =
     (- ERESTART, hdom\<lparr>pgtables_list := drop m (pgtables_list hdom),
              root_pgtable := clear_root_pgtable (root_pgtable hdom),
              heap_freed := heap_freed hdom @ take m (pgtables_list hdom)\<rparr>)"
proof -
  have "free_pgtables_loop chk (of_nat 0) 0 (pgtables_list hdom) (heap_freed hdom)
      = (- ERESTART, drop m (pgtables_list hdom), heap_freed hdom @ take m (pgtables_list hdom))"
    by (rule free_pgtables_loop_fires) (use assms in simp_all)
  then show ?thesis by (simp add: free_pgtables_enabled)
qed

lemma free_pgtables_cases:
  "(fst (iommu_free_pgtables True clear_root_pgtable chk hdom) = 0
        \<and> pgtables_list (snd (iommu_free_pgtables True clear_root_pgtable chk hdom)) = []
        \<and> heap_freed (snd (iommu_free_pgtables True clear_root_pgtable chk hdom))
               = heap_freed hdom @ pgtables_list hdom)
     \<or> (fst (iommu_free_pgtables True clear_root_pgtable chk hdom) = - ERESTART
        \<and> (\<exists>m. 0 < m \<and> m \<le> length (pgtables_list hdom) \<and> 256 dvd m \<and> chk m
              \<and> pgtables_list (snd (iommu_free_pgtables True clear_root_pgtable chk hdom))
                  = drop m (pgtables_list hdom)
              \<and> heap_freed (snd (iommu_free_pgtables True clear_root_pgtable chk hdom))
                  = heap_freed hdom @ take m (pgtables_list hdom)))"
proof -
  obtain rc rest freed' where
    loop: "free_pgtables_loop chk (of_nat 0) 0 (pgtables_list hdom) (heap_freed hdom) = (rc, rest, freed')"
    by (metis prod_cases3)
  then have call: "iommu_free_pgtables True clear_root_pgtable chk hdom =
      (rc, hdom\<lparr>pgtables_list := rest,
                 root_pgtable := clear_root_pgtable (root_pgtable hdom), heap_freed := freed'\<rparr>)"
    by (simp add: free_pgtables_enabled)
  from free_pgtables_loop_result [OF loop] show ?thesis
    by (auto simp: call)
qed

text \<open>
  Claim C8. For a guest with the IOMMU enabled (or with no page on its list),
  \<^verbatim>\<open>iommu_free_pgtables\<close> frees the pages from the head of the list and asks
  \<^verbatim>\<open>general_preempt_check\<close> after every 256th page. First, the call either returns 0
  with the list empty and every page of it given back to the heap in list order, or returns
  \<open>-ERESTART\<close>, which is not 0, after the check has fired at a count \<open>m\<close> that is a
  positive multiple of 256: then exactly the first \<open>m\<close> pages are given back and the list
  holds the others, at least 256 fewer. Second, which of the two it is: if the check fires
  at no multiple of 256 up to the length of the list, the call returns 0; if \<open>m\<close> is the
  first multiple of 256 within the list at which the check fires, the call returns
  \<open>-ERESTART\<close> there, with the first \<open>m\<close> pages given back, the others listed and the
  root page table cleared. Third, the drain is resumed by the next call: on the state left,
  a call whose check \<open>chk'\<close> does not fire returns 0 with the list empty and every page of
  the first list given back. The function is total: each call ends.
\<close>

theorem free_pgtables_drains:
  assumes "is_iommu_enabled \<or> pgtables_list hdom = []"
  shows "((fst (iommu_free_pgtables is_iommu_enabled clear_root_pgtable chk hdom) = 0
        \<and> pgtables_list (snd (iommu_free_pgtables is_iommu_enabled clear_root_pgtable chk hdom)) = []
        \<and> (is_iommu_enabled \<longrightarrow>
             heap_freed (snd (iommu_free_pgtables is_iommu_enabled clear_root_pgtable chk hdom))
               = heap_freed hdom @ pgtables_list hdom))
     \<or> (fst (iommu_free_pgtables is_iommu_enabled clear_root_pgtable chk hdom) = - ERESTART
        \<and> - ERESTART \<noteq> (0 :: int)
        \<and> (\<exists>m. 0 < m \<and> m \<le> length (pgtables_list hdom) \<and> 256 dvd m \<and> chk m
              \<and> pgtables_list (snd (iommu_free_pgtables is_iommu_enabled clear_root_pgtable chk hdom))
                  = drop m (pgtables_list hdom)
              \<and> heap_freed (snd (iommu_free_pgtables is_iommu_enabled clear_root_pgtable chk hdom))
                  = heap_freed hdom @ take m (pgtables_list hdom))
        \<and> length (pgtables_list (snd (iommu_free_pgtables is_iommu_enabled clear_root_pgtable chk hdom)))
            + 256 \<le> length (pgtables_list hdom)))
   \<and> ((\<forall>m. 0 < m \<and> m \<le> length (pgtables_list hdom) \<and> 256 dvd m \<longrightarrow> \<not> chk m)
        \<longrightarrow> fst (iommu_free_pgtables is_iommu_enabled clear_root_pgtable chk hdom) = 0)
   \<and> (\<forall>m. 0 < m \<and> m \<le> length (pgtables_list hdom) \<and> 256 dvd m \<and> chk m
           \<and> (\<forall>k. 0 < k \<and> k < m \<and> 256 dvd k \<longrightarrow> \<not> chk k)
        \<longrightarrow> iommu_free_pgtables is_iommu_enabled clear_root_pgtable chk hdom
            = (- ERESTART,
               hdom\<lparr>pgtables_list := drop m (pgtables_list hdom),
                     root_pgtable := clear_root_pgtable (root_pgtable hdom),
                     heap_freed := heap_freed hdom @ take m (pgtables_list hdom)\<rparr>))
   \<and> ((\<forall>m. 0 < m
            \<and> m \<le> length (pgtables_list
                        (snd (iommu_free_pgtables is_iommu_enabled clear_root_pgtable chk hdom)))
            \<and> 256 dvd m \<longrightarrow> \<not> chk' m)
        \<longrightarrow> fst (iommu_free_pgtables is_iommu_enabled clear_root_pgtable chk'
                   (snd (iommu_free_pgtables is_iommu_enabled clear_root_pgtable chk hdom))) = 0
          \<and> pgtables_list (snd (iommu_free_pgtables is_iommu_enabled clear_root_pgtable chk'
                   (snd (iommu_free_pgtables is_iommu_enabled clear_root_pgtable chk hdom)))) = []
          \<and> (is_iommu_enabled \<longrightarrow>
               heap_freed (snd (iommu_free_pgtables is_iommu_enabled clear_root_pgtable chk'
                   (snd (iommu_free_pgtables is_iommu_enabled clear_root_pgtable chk hdom))))
               = heap_freed hdom @ pgtables_list hdom))"
proof (cases is_iommu_enabled)
  case False
  with assms show ?thesis by (auto simp: iommu_free_pgtables_def)
next
  case True
  let ?r = "iommu_free_pgtables True clear_root_pgtable chk hdom"
  let ?L = "pgtables_list hdom"
  have A: "(fst ?r = 0 \<and> pgtables_list (snd ?r) = []
        \<and> (True \<longrightarrow> heap_freed (snd ?r) = heap_freed hdom @ ?L))
     \<or> (fst ?r = - ERESTART \<and> - ERESTART \<noteq> (0 :: int)
        \<and> (\<exists>m. 0 < m \<and> m \<le> length ?L \<and> 256 dvd m \<and> chk m
              \<and> pgtables_list (snd ?r) = drop m ?L
              \<and> heap_freed (snd ?r) = heap_freed hdom @ take m ?L)
        \<and> length (pgtables_list (snd ?r)) + 256 \<le> length ?L)"
    using free_pgtables_cases [of clear_root_pgtable chk hdom]
  proof
    assume "fst ?r = 0 \<and> pgtables_list (snd ?r) = [] \<and> heap_freed (snd ?r) = heap_freed hdom @ ?L"
    then show ?thesis by simp
  next
    assume r: "fst ?r = - ERESTART
        \<and> (\<exists>m. 0 < m \<and> m \<le> length ?L \<and> 256 dvd m \<and> chk m
              \<and> pgtables_list (snd ?r) = drop m ?L
              \<and> heap_freed (snd ?r) = heap_freed hdom @ take m ?L)"
    then obtain m where m: "0 < m" "m \<le> length ?L" "256 dvd m" "pgtables_list (snd ?r) = drop m ?L"
      by blast
    from m(1,3) have "256 \<le> m" by (auto simp: dvd_def)
    with m(2,4) have "length (pgtables_list (snd ?r)) + 256 \<le> length ?L" by simp
    moreover have "- ERESTART \<noteq> (0 :: int)" by (simp add: ERESTART_def)
    ultimately show ?thesis using r by blast
  qed
  have B: "(\<forall>m. 0 < m \<and> m \<le> length ?L \<and> 256 dvd m \<longrightarrow> \<not> chk m) \<longrightarrow> fst ?r = 0"
    by (simp add: free_pgtables_quiet)
  have C: "\<forall>m. 0 < m \<and> m \<le> length ?L \<and> 256 dvd m \<and> chk m
           \<and> (\<forall>k. 0 < k \<and> k < m \<and> 256 dvd k \<longrightarrow> \<not> chk k)
        \<longrightarrow> ?r = (- ERESTART,
               hdom\<lparr>pgtables_list := drop m ?L,
                     root_pgtable := clear_root_pgtable (root_pgtable hdom),
                     heap_freed := heap_freed hdom @ take m ?L\<rparr>)"
    by (auto intro: free_pgtables_fires)
  have all: "heap_freed (snd ?r) @ pgtables_list (snd ?r) = heap_freed hdom @ ?L"
    using free_pgtables_cases [of clear_root_pgtable chk hdom] by auto
  have D: "(\<forall>m. 0 < m \<and> m \<le> length (pgtables_list (snd ?r)) \<and> 256 dvd m \<longrightarrow> \<not> chk' m)
        \<longrightarrow> fst (iommu_free_pgtables True clear_root_pgtable chk' (snd ?r)) = 0
          \<and> pgtables_list (snd (iommu_free_pgtables True clear_root_pgtable chk' (snd ?r))) = []
          \<and> (True \<longrightarrow> heap_freed (snd (iommu_free_pgtables True clear_root_pgtable chk' (snd ?r)))
               = heap_freed hdom @ ?L)"
    by (simp add: free_pgtables_quiet all)
  from True have en: "is_iommu_enabled = True" by simp
  show ?thesis unfolding en by (rule conjI [OF A conjI [OF B conjI [OF C D]]])
qed

text \<open>
  A list of three pages is drained in one call. With 257 pages and a preemption check that
  fires, the call frees 256 pages and asks for a restart with the last page left; the next
  call frees that page.
\<close>

theorem free_pgtables_drains_witness:
  "fst (iommu_free_pgtables True (\<lambda>r. False) (\<lambda>n. True)
      \<lparr>pgtables_list = [3, 2, 1], root_pgtable = True, page_data = (\<lambda>_. []), heap_freed = [9]\<rparr>) = 0
   \<and> pgtables_list (snd (iommu_free_pgtables True (\<lambda>r. False) (\<lambda>n. True)
      \<lparr>pgtables_list = [3, 2, 1], root_pgtable = True, page_data = (\<lambda>_. []), heap_freed = [9]\<rparr>))
     = []
   \<and> heap_freed (snd (iommu_free_pgtables True (\<lambda>r. False) (\<lambda>n. True)
      \<lparr>pgtables_list = [3, 2, 1], root_pgtable = True, page_data = (\<lambda>_. []), heap_freed = [9]\<rparr>))
     = [9, 3, 2, 1]
   \<and> iommu_free_pgtables True (\<lambda>r. False) (\<lambda>n. True)
      \<lparr>pgtables_list = [0 ..< 255] @ [255, 256], root_pgtable = True, page_data = (\<lambda>_. []),
       heap_freed = []\<rparr>
    = (- ERESTART, \<lparr>pgtables_list = [256], root_pgtable = False, page_data = (\<lambda>_. []),
           heap_freed = [0 ..< 255] @ [255]\<rparr>)
   \<and> heap_freed (snd (iommu_free_pgtables True (\<lambda>r. False) (\<lambda>n. True)
       (snd (iommu_free_pgtables True (\<lambda>r. False) (\<lambda>n. True)
          \<lparr>pgtables_list = [0 ..< 255] @ [255, 256], root_pgtable = True, page_data = (\<lambda>_. []),
           heap_freed = []\<rparr>))))
     = [0 ..< 255] @ [255, 256]"
proof -
  let ?h = "\<lparr>pgtables_list = [3, 2, 1 :: nat], root_pgtable = True, page_data = (\<lambda>_. []),
            heap_freed = [9 :: nat]\<rparr>"
  let ?g = "\<lparr>pgtables_list = [0 ..< 255] @ [255, 256 :: nat], root_pgtable = True,
            page_data = (\<lambda>_. []), heap_freed = [] :: nat list\<rparr>"
  have big: "256 \<le> m" if "0 < m" "256 dvd m" for m :: nat
    using that by (auto simp: dvd_def)
  have en: "True \<or> pgtables_list h = []" for h :: "bool arena" by simp
  note inst = free_pgtables_drains [where is_iommu_enabled = True and clear_root_pgtable = "\<lambda>r. False"
      and chk = "\<lambda>n. True" and chk' = "\<lambda>n. True", OF en]
  have q3: "\<forall>m. 0 < m \<and> m \<le> length (pgtables_list ?h) \<and> 256 dvd m \<longrightarrow> \<not> (\<lambda>n. True) m"
    using big by fastforce
  from inst [of ?h, THEN conjunct2, THEN conjunct1, THEN mp, OF q3]
  have short: "fst (iommu_free_pgtables True (\<lambda>r. False) (\<lambda>n. True) ?h) = 0" .
  with inst [of ?h, THEN conjunct1]
  have drained: "pgtables_list (snd (iommu_free_pgtables True (\<lambda>r. False) (\<lambda>n. True) ?h)) = []
      \<and> heap_freed (snd (iommu_free_pgtables True (\<lambda>r. False) (\<lambda>n. True) ?h)) = [9, 3, 2, 1]"
    by (simp add: ERESTART_def)
  have f256: "0 < (256 :: nat) \<and> 256 \<le> length (pgtables_list ?g) \<and> (256 :: nat) dvd 256
      \<and> (\<lambda>n. True) (256 :: nat) \<and> (\<forall>k. 0 < k \<and> k < 256 \<and> 256 dvd k \<longrightarrow> \<not> (\<lambda>n :: nat. True) k)"
    using big by fastforce
  from inst [of ?g, THEN conjunct2, THEN conjunct2, THEN conjunct1,
      THEN spec [where x = "256 :: nat"], THEN mp, OF f256]
  have long: "iommu_free_pgtables True (\<lambda>r. False) (\<lambda>n. True) ?g
    = (- ERESTART, \<lparr>pgtables_list = [256], root_pgtable = False, page_data = (\<lambda>_. []),
           heap_freed = [0 ..< 255] @ [255]\<rparr>)"
    by simp
  have q1: "\<forall>m. 0 < m
      \<and> m \<le> length (pgtables_list (snd (iommu_free_pgtables True (\<lambda>r. False) (\<lambda>n. True) ?g)))
      \<and> 256 dvd m \<longrightarrow> \<not> (\<lambda>n. True) m"
    unfolding long using big by fastforce
  from inst [of ?g, THEN conjunct2, THEN conjunct2, THEN conjunct2, THEN mp, OF q1]
  have resume: "heap_freed (snd (iommu_free_pgtables True (\<lambda>r. False) (\<lambda>n. True)
       (snd (iommu_free_pgtables True (\<lambda>r. False) (\<lambda>n. True) ?g))))
     = [0 ..< 255] @ [255, 256]"
    by simp
  from short drained long resume show ?thesis by simp
qed

section \<open>Properties of the hardware-domain map builder\<close>

























end
